theory Spec2Isabelle
  imports Complex_Main "HOL-Library.Word" "HOL-Library.Log_Nat"
begin

section \<open>The QUIC throughput client: model of the program\<close>

text \<open>
  The client (\<^verbatim>\<open>main.go\<close>) dials a QUIC server, uploads a pseudo-random payload on
  \<open>N\<close> streams, one goroutine per stream, waits for all of them, then accepts \<open>N\<close>
  streams from the server, again one goroutine each, which add the bytes they read to a
  shared total and append their elapsed time to a shared slice under one mutex, waits for
  all of them, and prints the average throughput.

  The QUIC session and its streams are outside the program: the model takes what they
  return as input (the result of each accept, the sequence of results of the reads and
  writes of a stream, the elapsed time measured by a task). A goroutine is modelled by the
  list of actions it performs, in order, for given inputs; the goroutines of a phase are
  run by interleaving their actions over the shared variables.
\<close>

subsection \<open>Basic types\<close>

text \<open>
  Go's \<^verbatim>\<open>byte\<close> and \<^verbatim>\<open>uint64\<close> are machine words. Values of type \<^verbatim>\<open>int\<close> and
  \<^verbatim>\<open>time.Duration\<close> (a count of nanoseconds) are modelled as unbounded integers: they
  count bytes, streams and nanoseconds, and no run of the client comes near \<open>2 ^ 63\<close>.
\<close>

type_synonym byte = "8 word"

type_synonym uint64 = "64 word"

type_synonym duration = int

definition second :: duration where
  "second = 1000000000"

text \<open>
Run-time panics and fatal errors of the Go program, kept as values.
\<close>

datatype panic = MakeSliceLenOutOfRange | SliceBoundsOutOfRange | IntegerDivideByZero
  | NegativeWaitGroupCounter | UnlockOfUnlockedMutex

text \<open>
  An \<^verbatim>\<open>error\<close> value is either \<^verbatim>\<open>io.EOF\<close> or some other error with its message; the
  second argument of \<open>Error\<close> says whether the dynamic type has a method
  \<^verbatim>\<open>Timeout() bool\<close> and, if so, what it returns. \<open>isTimeout\<close> is the test
  \<^verbatim>\<open>te, ok := rerr.(tErr); ok && te.Timeout()\<close> of the read loops.
\<close>

datatype error = EOF | Error string "bool option"

definition isTimeout :: "error \<Rightarrow> bool" where
  "isTimeout e = (case e of EOF \<Rightarrow> False | Error m t \<Rightarrow> (case t of None \<Rightarrow> False | Some b \<Rightarrow> b))"

text \<open>
The command-line flags.
\<close>

record config =
  url :: string
  port :: int
  numberStream :: int
  dataSize :: int
  downloadUni :: bool
  readTO :: duration
  idleTO :: duration

subsection \<open>Payload generator\<close>

text \<open>
  \<^verbatim>\<open>generatePRData\<close>: \<^verbatim>\<open>make([]byte, l)\<close> panics for a negative length; the loop
  \<^verbatim>\<open>for i := 0; i < l; i++\<close> updates the \<^verbatim>\<open>uint64\<close> seed (the multiplication wraps at
  \<open>2 ^ 64\<close>, \<^verbatim>\<open>%\<close> is the unsigned remainder) and stores \<^verbatim>\<open>byte(seed)\<close> at index \<open>i\<close>.
\<close>

function genLoop :: "int \<Rightarrow> int \<Rightarrow> uint64 \<Rightarrow> byte list \<Rightarrow> byte list" where
  "genLoop l i seed res =
     (if i < l then
        (let seed' = seed * 48271 mod 2147483647
         in genLoop l (i + 1) seed' (res[nat i := ucast seed']))
      else res)"
  by pat_completeness auto
termination
  by (relation "measure (\<lambda>(l, i, seed, res). nat (l - i))") auto

definition generatePRData :: "int \<Rightarrow> panic + byte list" where
  "generatePRData l =
     (if l < 0 then Inl MakeSliceLenOutOfRange
      else Inr (genLoop l 0 1 (replicate (nat l) 0)))"

subsection \<open>What the session and the streams return\<close>

text \<open>
  A \<^verbatim>\<open>Read\<close> or \<^verbatim>\<open>Write\<close> call returns a count and an error (\<open>None\<close> for \<^verbatim>\<open>nil\<close>).
  A stream is given by the results of its successive calls; when the list is used up, the
  next call does not return. A one-way stream also says whether its dynamic type has the
  method \<^verbatim>\<open>SetReadDeadline\<close>, which the program tests at run time. A download slot is
  given by the result of \<^verbatim>\<open>AcceptStream\<close>, the result of \<^verbatim>\<open>AcceptUniStream\<close> (consulted
  only when the first fails) and the value of \<^verbatim>\<open>time.Since(t1)\<close> at the end of its read loop.
\<close>

type_synonym readResult = "int \<times> error option"

type_synonym writeResult = "int \<times> error option"

record uniStream =
  uniReads :: "readResult list"
  uniHasDeadline :: bool

record slot =
  bidiAccept :: "error + readResult list"
  uniAccept :: "error + uniStream"
  elapsed :: duration

subsection \<open>Actions of a goroutine\<close>

text \<open>
  An event is a call on the session, on a stream or on standard output, with the
  arguments that matter: the timeout of an accept context, the duration added to
  \<^verbatim>\<open>time.Now()\<close> for a deadline, the bytes passed to \<^verbatim>\<open>Write\<close>, the buffer size and
  the results of a \<^verbatim>\<open>Read\<close>. The other actions are the accesses to what the goroutines
  share: \<^verbatim>\<open>mu.Lock()\<close>, \<^verbatim>\<open>mu.Unlock()\<close>, the read and the write of \<^verbatim>\<open>total\<close> in
  \<^verbatim>\<open>total += n\<close>, the read and the write of \<^verbatim>\<open>times\<close> in
  \<^verbatim>\<open>times = append(times, d)\<close>, and the deferred \<^verbatim>\<open>w.Done()\<close>. \<open>Blocked\<close> stands for a
  call that never returns, \<open>Crash\<close> for a panic that ends the program.
\<close>

datatype event =
    SetWriteDeadline duration
  | Write "byte list"
  | PrintStreamWriteError error
  | Close
  | AcceptStream duration
  | AcceptUniStream duration
  | PrintStreamAcceptError error error
  | SetReadDeadline duration
  | Read nat int "error option"

datatype action =
    Ev event
  | Lock
  | Unlock
  | LoadTotal
  | StoreTotal int
  | LoadTimes
  | StoreTimes duration
  | WgDone
  | Blocked
  | Crash panic

definition addTotal :: "int \<Rightarrow> action list" where
  "addTotal n = [Lock, LoadTotal, StoreTotal n, Unlock]"

definition appendTimes :: "duration \<Rightarrow> action list" where
  "appendTimes d = [Lock, LoadTimes, StoreTimes d, Unlock]"

subsection \<open>Download task\<close>

text \<open>
  The two read loops of the download goroutine, for a one-way stream (lines 176--201) and
  for a duplex stream (lines 210--231). The last argument is what the goroutine does after
  the loop. Each iteration arms the read deadline (on a one-way stream only if the method
  exists), reads into a 64 KiB buffer, adds a positive count to the total under the mutex,
  and then leaves the loop on \<^verbatim>\<open>io.EOF\<close>, continues on a timeout error, leaves on any
  other error, and continues when there is no error.
\<close>

fun readLoopUni :: "bool \<Rightarrow> duration \<Rightarrow> readResult list \<Rightarrow> action list \<Rightarrow> action list" where
  "readLoopUni ok to [] k =
     (if ok then [Ev (SetReadDeadline to)] else []) @ [Blocked]"
| "readLoopUni ok to ((n, rerr) # rs) k =
     (if ok then [Ev (SetReadDeadline to)] else []) @
     Ev (Read (64 * 1024) n rerr) #
     (if n > 0 then addTotal n else []) @
     (case rerr of
        None \<Rightarrow> readLoopUni ok to rs k
      | Some e \<Rightarrow>
          if e = EOF then k
          else if isTimeout e then readLoopUni ok to rs k
          else k)"

fun readLoopBidi :: "duration \<Rightarrow> readResult list \<Rightarrow> action list \<Rightarrow> action list" where
  "readLoopBidi to [] k = [Ev (SetReadDeadline to), Blocked]"
| "readLoopBidi to ((n, rerr) # rs) k =
     Ev (SetReadDeadline to) #
     Ev (Read (64 * 1024) n rerr) #
     (if n > 0 then addTotal n else []) @
     (case rerr of
        None \<Rightarrow> readLoopBidi to rs k
      | Some e \<Rightarrow>
          if e = EOF then k
          else if isTimeout e then readLoopBidi to rs k
          else k)"

text \<open>
  The download goroutine (lines 156--235): accept a duplex stream under a 30-second
  context; on an error accept a one-way stream under a 30-second context; when both fail
  print both errors and return. After the read loop the elapsed time is appended under
  the mutex. The deferred calls run on return: \<^verbatim>\<open>s.Close()\<close> (duplex stream only), then
  \<^verbatim>\<open>w.Done()\<close>. The download phase starts one such goroutine for each index below
  \<^verbatim>\<open>*numberStream\<close>.
\<close>

definition downloadTask :: "config \<Rightarrow> slot \<Rightarrow> action list" where
  "downloadTask cfg env =
     Ev (AcceptStream (30 * second)) #
     (case bidiAccept env of
        Inl err \<Rightarrow>
          Ev (AcceptUniStream (30 * second)) #
          (case uniAccept env of
             Inl uerr \<Rightarrow> [Ev (PrintStreamAcceptError err uerr), WgDone]
           | Inr us \<Rightarrow>
               readLoopUni (uniHasDeadline us) (readTO cfg) (uniReads us)
                 (appendTimes (elapsed env) @ [WgDone]))
      | Inr s \<Rightarrow>
          readLoopBidi (readTO cfg) s
            (appendTimes (elapsed env) @ [Ev Close, WgDone]))"

definition downloadTasks :: "config \<Rightarrow> (nat \<Rightarrow> slot) \<Rightarrow> action list list" where
  "downloadTasks cfg env = map (\<lambda>ix. downloadTask cfg (env ix)) [0..<nat (numberStream cfg)]"

subsection \<open>Upload task\<close>

text \<open>
  The slice expression \<^verbatim>\<open>msg[lo:hi]\<close>, which panics when out of range, and the write loop
  of the upload goroutine (lines 120--138): while bytes remain, write the next chunk of at
  most 64 KiB; on an error print it and return; otherwise advance by the count written
  and re-arm the write deadline. The deferred \<^verbatim>\<open>stream.Close()\<close> and \<^verbatim>\<open>w.Done()\<close> run on
  return, and also before a panic ends the program. The upload phase generates the
  payload and starts a goroutine for every stream that \<^verbatim>\<open>OpenStreamSync\<close> opened.
\<close>

definition slice_expr :: "'a list \<Rightarrow> int \<Rightarrow> int \<Rightarrow> panic + 'a list" where
  "slice_expr xs lo hi =
     (if 0 \<le> lo \<and> lo \<le> hi \<and> hi \<le> int (length xs)
      then Inr (take (nat (hi - lo)) (drop (nat lo) xs))
      else Inl SliceBoundsOutOfRange)"

fun uploadLoop :: "byte list \<Rightarrow> int \<Rightarrow> int \<Rightarrow> writeResult list \<Rightarrow> action list \<Rightarrow> action list" where
  "uploadLoop msg off remaining [] k =
     (if remaining > 0 then
        (let chunk = (if remaining < 64 * 1024 then remaining else 64 * 1024) in
         case slice_expr msg off (off + chunk) of
           Inl p \<Rightarrow> k @ [Crash p]
         | Inr bs \<Rightarrow> [Ev (Write bs), Blocked])
      else k)"
| "uploadLoop msg off remaining ((n, err) # ws) k =
     (if remaining > 0 then
        (let chunk = (if remaining < 64 * 1024 then remaining else 64 * 1024) in
         case slice_expr msg off (off + chunk) of
           Inl p \<Rightarrow> k @ [Crash p]
         | Inr bs \<Rightarrow>
             Ev (Write bs) #
             (case err of
                Some e \<Rightarrow> Ev (PrintStreamWriteError e) # k
              | None \<Rightarrow>
                  Ev (SetWriteDeadline (30 * second)) #
                  uploadLoop msg (off + n) (remaining - n) ws k))
      else k)"

definition uploadTask :: "byte list \<Rightarrow> writeResult list \<Rightarrow> action list" where
  "uploadTask msg ws =
     Ev (SetWriteDeadline (30 * second)) #
     uploadLoop msg 0 (int (length msg)) ws [Ev Close, WgDone]"

definition uploadTasks :: "config \<Rightarrow> (nat \<Rightarrow> error + writeResult list) \<Rightarrow> panic + action list list" where
  "uploadTasks cfg opens =
     (case generatePRData (dataSize cfg) of
        Inl p \<Rightarrow> Inl p
      | Inr msg \<Rightarrow>
          Inr (concat (map (\<lambda>i. case opens i of Inl err \<Rightarrow> [] | Inr ws \<Rightarrow> [uploadTask msg ws])
                 [0..<nat (numberStream cfg)])))"

subsection \<open>Interleaved execution of the goroutines of a phase\<close>

text \<open>
  A task is the list of actions a goroutine still has to perform (\<open>pc\<close>), the list of
  those it has performed (\<open>hist\<close>), and the values it has read from the shared
  variables. The state holds the shared variables \<^verbatim>\<open>total\<close>, \<^verbatim>\<open>times\<close>, the mutex
  \<^verbatim>\<open>mu\<close>, the counter of the wait group \<^verbatim>\<open>w\<close>, and the panic that has ended the
  program, if any. One step performs the next action of one task: \<^verbatim>\<open>Lock\<close> cannot be
  taken while the mutex is held, \<^verbatim>\<open>Unlock\<close> of a free mutex and a negative wait-group
  counter are fatal, and a blocked call is never taken. A schedule is the list of the
  tasks that step, in order; \<open>run\<close> is \<open>None\<close> when the schedule asks for a step that
  cannot be taken. The wait group starts at the number of goroutines: \<^verbatim>\<open>w.Add(1)\<close>
  precedes each \<^verbatim>\<open>go\<close> statement, and \<^verbatim>\<open>w.Wait()\<close> returns when the counter is 0.
\<close>

record task =
  pc :: "action list"
  hist :: "action list"
  reg_total :: int
  reg_times :: "duration list"

record state =
  total_sh :: int
  times_sh :: "duration list"
  mu_sh :: bool
  w_sh :: int
  crashed :: "panic option"
  tasks :: "task list"

definition exec :: "action \<Rightarrow> nat \<Rightarrow> task \<Rightarrow> state \<Rightarrow> state option" where
  "exec a i t s =
     (case a of
        Ev e \<Rightarrow> Some (s\<lparr>tasks := (tasks s)[i := t]\<rparr>)
      | Lock \<Rightarrow>
          if mu_sh s then None
          else Some (s\<lparr>mu_sh := True, tasks := (tasks s)[i := t]\<rparr>)
      | Unlock \<Rightarrow>
          if mu_sh s then Some (s\<lparr>mu_sh := False, tasks := (tasks s)[i := t]\<rparr>)
          else Some (s\<lparr>crashed := Some UnlockOfUnlockedMutex, tasks := (tasks s)[i := t]\<rparr>)
      | LoadTotal \<Rightarrow> Some (s\<lparr>tasks := (tasks s)[i := t\<lparr>reg_total := total_sh s\<rparr>]\<rparr>)
      | StoreTotal n \<Rightarrow> Some (s\<lparr>total_sh := reg_total t + n, tasks := (tasks s)[i := t]\<rparr>)
      | LoadTimes \<Rightarrow> Some (s\<lparr>tasks := (tasks s)[i := t\<lparr>reg_times := times_sh s\<rparr>]\<rparr>)
      | StoreTimes d \<Rightarrow> Some (s\<lparr>times_sh := reg_times t @ [d], tasks := (tasks s)[i := t]\<rparr>)
      | WgDone \<Rightarrow>
          if w_sh s - 1 < 0
          then Some (s\<lparr>crashed := Some NegativeWaitGroupCounter, tasks := (tasks s)[i := t]\<rparr>)
          else Some (s\<lparr>w_sh := w_sh s - 1, tasks := (tasks s)[i := t]\<rparr>)
      | Blocked \<Rightarrow> None
      | Crash p \<Rightarrow> Some (s\<lparr>crashed := Some p, tasks := (tasks s)[i := t]\<rparr>))"

definition step :: "nat \<Rightarrow> state \<Rightarrow> state option" where
  "step i s =
     (if crashed s \<noteq> None \<or> length (tasks s) \<le> i then None
      else
        (case pc (tasks s ! i) of
           [] \<Rightarrow> None
         | a # r \<Rightarrow>
             exec a i ((tasks s ! i)\<lparr>pc := r, hist := hist (tasks s ! i) @ [a]\<rparr>) s))"

fun run :: "nat list \<Rightarrow> state \<Rightarrow> state option" where
  "run [] s = Some s"
| "run (i # sched) s = (case step i s of None \<Rightarrow> None | Some s' \<Rightarrow> run sched s')"

definition spawn :: "action list \<Rightarrow> task" where
  "spawn p = \<lparr>pc = p, hist = [], reg_total = 0, reg_times = []\<rparr>"

definition start :: "action list list \<Rightarrow> state" where
  "start ps = \<lparr>total_sh = 0, times_sh = [], mu_sh = False, w_sh = int (length ps),
               crashed = None, tasks = map spawn ps\<rparr>"

subsection \<open>Measurement aggregator\<close>

text \<open>
  Go's integer division truncates towards zero and panics on a zero divisor.
\<close>

definition tquot :: "int \<Rightarrow> int \<Rightarrow> int" where
  "tquot a b = (if (a < 0) = (b < 0) then \<bar>a\<bar> div \<bar>b\<bar> else - (\<bar>a\<bar> div \<bar>b\<bar>))"

definition trem :: "int \<Rightarrow> int \<Rightarrow> int" where
  "trem a b = a - b * tquot a b"

definition go_div :: "int \<Rightarrow> int \<Rightarrow> panic + int" where
  "go_div a b = (if b = 0 then Inl IntegerDivideByZero else Inr (tquot a b))"

text \<open>
  A \<^verbatim>\<open>float64\<close> is a rational, an infinity or NaN. Every operation rounds its exact result
  to the nearest number with a 53-bit significand, ties to even (\<open>fl\<close>); the exponent
  range is not limited, which no value computed here from 64-bit integers can notice, and
  the only zero that occurs as a divisor is \<open>+0\<close>. \<open>ilog2 x\<close> is the exponent \<open>e\<close> with
  \<open>2 ^ e \<le> \<bar>x\<bar> < 2 ^ (e + 1)\<close>.
\<close>

definition round_even :: "rat \<Rightarrow> int" where
  "round_even x =
     (let f = \<lfloor>x\<rfloor>; r = x - of_int f
      in if r < 1 / 2 then f else if 1 / 2 < r then f + 1 else if even f then f else f + 1)"

definition ilog2 :: "rat \<Rightarrow> int" where
  "ilog2 x =
     (let (p, q) = quotient_of \<bar>x\<bar>; k = bitlen p - bitlen q
      in if 2 powi k \<le> \<bar>x\<bar> then k else k - 1)"

definition fl :: "rat \<Rightarrow> rat" where
  "fl x =
     (if x = 0 then 0
      else (let u = 2 powi (ilog2 x - 52) in of_int (round_even (x / u)) * u))"

datatype f64 = Finite rat | PosInf | NegInf | NaN

definition f64_of_int :: "int \<Rightarrow> f64" where
  "f64_of_int i = Finite (fl (of_int i))"

fun f64_add :: "f64 \<Rightarrow> f64 \<Rightarrow> f64" where
  "f64_add (Finite a) (Finite b) = Finite (fl (a + b))"
| "f64_add NaN y = NaN"
| "f64_add x NaN = NaN"
| "f64_add PosInf NegInf = NaN"
| "f64_add NegInf PosInf = NaN"
| "f64_add PosInf y = PosInf"
| "f64_add NegInf y = NegInf"
| "f64_add x PosInf = PosInf"
| "f64_add x NegInf = NegInf"

fun f64_div :: "f64 \<Rightarrow> f64 \<Rightarrow> f64" where
  "f64_div (Finite a) (Finite b) =
     (if b = 0 then (if a = 0 then NaN else if 0 < a then PosInf else NegInf)
      else Finite (fl (a / b)))"
| "f64_div NaN y = NaN"
| "f64_div x NaN = NaN"
| "f64_div (Finite a) y = Finite 0"
| "f64_div PosInf (Finite b) = (if 0 \<le> b then PosInf else NegInf)"
| "f64_div NegInf (Finite b) = (if 0 \<le> b then NegInf else PosInf)"
| "f64_div x y = NaN"

text \<open>
  \<^verbatim>\<open>Duration.Seconds\<close> of the standard library:
  \<^verbatim>\<open>sec := d / Second; nsec := d % Second; return float64(sec) + float64(nsec)/1e9\<close>.
\<close>

definition Seconds :: "duration \<Rightarrow> f64" where
  "Seconds d =
     (let sec = tquot d second; nsec = trem d second
      in f64_add (f64_of_int sec) (f64_div (f64_of_int nsec) (Finite 1000000000)))"

text \<open>
  Go's signed integer arithmetic wraps around: \<open>wrap w x\<close> is the number that the low \<open>w\<close>
  bits of \<open>x\<close> denote in two's complement. A \<^verbatim>\<open>time.Duration\<close> is an \<^verbatim>\<open>int64\<close>. The width of
  \<^verbatim>\<open>int\<close> is that of the target, 32 or 64 bits, and is a parameter of the report.
\<close>

definition wrap :: "nat \<Rightarrow> int \<Rightarrow> int" where
  "wrap w x = (x + 2 ^ (w - 1)) mod 2 ^ w - 2 ^ (w - 1)"

datatype intSize = Int32 | Int64

fun width :: "intSize \<Rightarrow> nat" where
  "width Int32 = 32"
| "width Int64 = 64"

text \<open>
  The end of \<^verbatim>\<open>main\<close> (lines 242--258): the no-data guard, the sum of the durations
  (\<^verbatim>\<open>totalDur += d\<close> on \<^verbatim>\<open>int64\<close>), the average, the product \<^verbatim>\<open>total*8\<close> (on \<^verbatim>\<open>int\<close>) converted to
  \<^verbatim>\<open>float64\<close>, the bits per second and the division by the constant \<^verbatim>\<open>ratio\<close>. The divisor
  of the average is at least 1 and that of \<^verbatim>\<open>Seconds\<close> is 1000000000, so these quotients stay
  within \<^verbatim>\<open>int64\<close>. The result lists the divisions performed, in order, and the lines
  printed (or the panic). The report of a download phase is produced when \<^verbatim>\<open>w.Wait()\<close> has
  returned; the state keeps the exact sum of the byte counts added, and the variable
  \<^verbatim>\<open>total\<close> read by the report holds that sum wrapped to the width of \<^verbatim>\<open>int\<close>.
\<close>

definition ratio :: rat where
  "ratio = 1048576"

datatype calc = IntQuot int int | FloatQuot f64 f64

datatype line = NoDataReceived | ReceivedTotal int nat | DownloadSpeed f64 | TestFinished

definition report ::
  "intSize \<Rightarrow> int \<Rightarrow> duration list \<Rightarrow> calc list \<times> (panic + line list)" where
  "report sz tot tms =
     (if length tms = 0 \<or> tot = 0 then ([], Inr [NoDataReceived])
      else
        (let totalDur = foldl (\<lambda>acc d. wrap 64 (acc + d)) 0 tms in
         case go_div totalDur (int (length tms)) of
           Inl p \<Rightarrow> ([IntQuot totalDur (int (length tms))], Inl p)
         | Inr avgDur \<Rightarrow>
             (let bits = wrap (width sz) (tot * 8);
                  bps = f64_div (f64_of_int bits) (Seconds avgDur);
                  Mbps = f64_div bps (Finite ratio)
              in ([IntQuot totalDur (int (length tms)),
                   FloatQuot (f64_of_int bits) (Seconds avgDur),
                   FloatQuot bps (Finite ratio)],
                  Inr [ReceivedTotal tot (length tms), DownloadSpeed Mbps, TestFinished]))))"

definition downloadReport ::
  "intSize \<Rightarrow> config \<Rightarrow> (nat \<Rightarrow> slot) \<Rightarrow> nat list \<Rightarrow>
     (calc list \<times> (panic + line list)) option" where
  "downloadReport sz cfg env sched =
     (case run sched (start (downloadTasks cfg env)) of
        None \<Rightarrow> None
      | Some s \<Rightarrow>
          if w_sh s = 0 \<and> crashed s = None
          then Some (report sz (wrap (width sz) (total_sh s)) (times_sh s))
          else None)"

section \<open>Notions used to state the properties\<close>

subsection \<open>The Park--Miller sequence\<close>

text \<open>
  The sequence as the specification words it: the recurrence on the natural numbers, with
  no machine width, starting from the seed 1; the low-order byte of a value; the first
  \<open>n\<close> output bytes.
\<close>

fun park_miller :: "nat \<Rightarrow> nat" where
  "park_miller 0 = 1"
| "park_miller (Suc k) = park_miller k * 48271 mod 2147483647"

definition low_byte :: "nat \<Rightarrow> byte" where
  "low_byte v = of_nat (v mod 256)"

definition pm_bytes :: "nat \<Rightarrow> byte list" where
  "pm_bytes n = map (\<lambda>i. low_byte (park_miller (Suc i))) [0..<n]"

subsection \<open>Contributions of a task\<close>

text \<open>
  The sum of the increments of the total, the durations appended and the number of
  \<^verbatim>\<open>w.Done()\<close> calls in a list of actions.
\<close>

fun incs :: "action list \<Rightarrow> int" where
  "incs [] = 0"
| "incs (StoreTotal n # r) = n + incs r"
| "incs (a # r) = incs r"

fun durs :: "action list \<Rightarrow> duration list" where
  "durs [] = []"
| "durs (StoreTimes d # r) = d # durs r"
| "durs (a # r) = durs r"

fun dones :: "action list \<Rightarrow> nat" where
  "dones [] = 0"
| "dones (WgDone # r) = Suc (dones r)"
| "dones (a # r) = dones r"

subsection \<open>Lock discipline and invariants\<close>

text \<open>
  A list of actions is disciplined when it accesses the shared variables only inside
  critical sections of the form lock, read, write, unlock, and when \<^verbatim>\<open>w.Done()\<close> or a
  blocked call can only be its last action. \<open>mode_of\<close> reads from the next action of a
  task where it stands in a critical section; a task holds the mutex when it is inside one.
\<close>

datatype mode = Out | GotLock | LoadedTotal | LoadedTimes | Stored

fun mode_of :: "action list \<Rightarrow> mode" where
  "mode_of (LoadTotal # r) = GotLock"
| "mode_of (LoadTimes # r) = GotLock"
| "mode_of (StoreTotal n # r) = LoadedTotal"
| "mode_of (StoreTimes d # r) = LoadedTimes"
| "mode_of (Unlock # r) = Stored"
| "mode_of r = Out"

fun scan :: "mode \<Rightarrow> action list \<Rightarrow> bool" where
  "scan Out [] = True"
| "scan Out (Ev e # r) = scan Out r"
| "scan Out (Lock # r) = scan GotLock r"
| "scan Out (WgDone # r) = (r = [])"
| "scan Out (Blocked # r) = (r = [])"
| "scan GotLock (LoadTotal # r) = scan LoadedTotal r"
| "scan GotLock (LoadTimes # r) = scan LoadedTimes r"
| "scan LoadedTotal (StoreTotal n # r) = scan Stored r"
| "scan LoadedTimes (StoreTimes d # r) = scan Stored r"
| "scan Stored (Unlock # r) = scan Out r"
| "scan m r = False"

definition disciplined :: "action list \<Rightarrow> bool" where
  "disciplined p = scan Out p"

definition holds_lock :: "task \<Rightarrow> bool" where
  "holds_lock t = (mode_of (pc t) \<noteq> Out)"

text \<open>
  The invariants of the interleaved execution: every task stays disciplined; the mutex is
  held exactly when some task is inside a critical section, and at most one is; a task
  about to write a shared variable has read its current value; the total is the sum of
  the increments performed and the number of durations the number of appends performed;
  the wait group counts the tasks that have not called \<^verbatim>\<open>w.Done()\<close>. \<open>code_of\<close> gives
  back the action lists the tasks were started with.
\<close>

definition inv_disc :: "state \<Rightarrow> bool" where
  "inv_disc s = (\<forall>j < length (tasks s). scan (mode_of (pc (tasks s ! j))) (pc (tasks s ! j)))"

definition inv_mutex :: "state \<Rightarrow> bool" where
  "inv_mutex s =
     ((mu_sh s \<longleftrightarrow> (\<exists>j < length (tasks s). holds_lock (tasks s ! j))) \<and>
      (\<forall>j k. j < length (tasks s) \<and> k < length (tasks s) \<and>
          holds_lock (tasks s ! j) \<and> holds_lock (tasks s ! k) \<longrightarrow> j = k))"

definition inv_regs :: "state \<Rightarrow> bool" where
  "inv_regs s =
     (\<forall>j < length (tasks s).
        (mode_of (pc (tasks s ! j)) = LoadedTotal \<longrightarrow> reg_total (tasks s ! j) = total_sh s) \<and>
        (mode_of (pc (tasks s ! j)) = LoadedTimes \<longrightarrow> reg_times (tasks s ! j) = times_sh s))"

definition inv_sums :: "state \<Rightarrow> bool" where
  "inv_sums s =
     (total_sh s = (\<Sum>t \<leftarrow> tasks s. incs (hist t)) \<and>
      int (length (times_sh s)) = (\<Sum>t \<leftarrow> tasks s. int (length (durs (hist t)))))"

definition inv_wg :: "state \<Rightarrow> bool" where
  "inv_wg s =
     (w_sh s + (\<Sum>t \<leftarrow> tasks s. int (dones (hist t))) = int (length (tasks s)) \<and>
      (\<forall>j < length (tasks s). dones (hist (tasks s ! j)) + dones (pc (tasks s ! j)) \<le> 1) \<and>
      (\<forall>j < length (tasks s). 0 < dones (hist (tasks s ! j)) \<longrightarrow> pc (tasks s ! j) = []))"

definition inv_all :: "state \<Rightarrow> bool" where
  "inv_all s = (crashed s = None \<and> inv_disc s \<and> inv_mutex s \<and> inv_regs s \<and> inv_sums s \<and> inv_wg s)"

definition code_of :: "state \<Rightarrow> action list list" where
  "code_of s = map (\<lambda>t. hist t @ pc t) (tasks s)"

subsection \<open>Read loops\<close>

text \<open>
  A read result is terminal when it ends the loop (end of stream or an error that is not
  a timeout) and tolerated when it is a timeout error. \<open>consumed\<close> are the reads a loop
  performs, up to the first terminal one; the loop exits when there is one. \<open>iterUni\<close>
  and \<open>iterBidi\<close> are the actions of one iteration, \<open>received\<close> the bytes counted.
  \<open>accepted\<close> is the stream a slot reads from, if any.
\<close>

fun terminal :: "readResult \<Rightarrow> bool" where
  "terminal (n, rerr) = (case rerr of None \<Rightarrow> False | Some e \<Rightarrow> e = EOF \<or> \<not> isTimeout e)"

definition tolerated :: "readResult \<Rightarrow> bool" where
  "tolerated r = (case snd r of None \<Rightarrow> False | Some e \<Rightarrow> e \<noteq> EOF \<and> isTimeout e)"

fun consumed :: "readResult list \<Rightarrow> readResult list" where
  "consumed [] = []"
| "consumed (r # rs) = r # (if terminal r then [] else consumed rs)"

definition exits :: "readResult list \<Rightarrow> bool" where
  "exits rs = list_ex terminal rs"

definition armUni :: "bool \<Rightarrow> duration \<Rightarrow> action list" where
  "armUni ok to = (if ok then [Ev (SetReadDeadline to)] else [])"

fun iterUni :: "bool \<Rightarrow> duration \<Rightarrow> readResult \<Rightarrow> action list" where
  "iterUni ok to (n, rerr) =
     armUni ok to @ Ev (Read (64 * 1024) n rerr) # (if n > 0 then addTotal n else [])"

fun iterBidi :: "duration \<Rightarrow> readResult \<Rightarrow> action list" where
  "iterBidi to (n, rerr) =
     Ev (SetReadDeadline to) # Ev (Read (64 * 1024) n rerr) # (if n > 0 then addTotal n else [])"

fun received :: "readResult list \<Rightarrow> int" where
  "received [] = 0"
| "received ((n, rerr) # rs) = (if n > 0 then n else 0) + received rs"

definition accepted :: "slot \<Rightarrow> readResult list option" where
  "accepted env =
     (case bidiAccept env of
        Inr s \<Rightarrow> Some s
      | Inl err \<Rightarrow> (case uniAccept env of Inr us \<Rightarrow> Some (uniReads us) | Inl uerr \<Rightarrow> None))"

text \<open>
  A slot records a duration when its task appends one; its stream yielded a read either
  in the sense that a \<^verbatim>\<open>Read\<close> call returned, or in the sense that one returned bytes.
\<close>

definition records_duration :: "config \<Rightarrow> slot \<Rightarrow> bool" where
  "records_duration cfg e = (durs (downloadTask cfg e) \<noteq> [])"

definition yielded_return :: "slot \<Rightarrow> bool" where
  "yielded_return e = (case accepted e of None \<Rightarrow> False | Some rs \<Rightarrow> consumed rs \<noteq> [])"

definition yielded_data :: "slot \<Rightarrow> bool" where
  "yielded_data e = (case accepted e of None \<Rightarrow> False | Some rs \<Rightarrow> 0 < received (consumed rs))"

subsection \<open>Throughput and chunks\<close>





text \<open>
  The chunks of a payload: consecutive pieces of 65536 bytes, the last one shorter. A
  write that is accepted whole returns the length of its chunk and no error (a writer
  that returns a shorter count must return an error); \<open>write_step\<close> is what the task
  does for such a chunk.
\<close>

function chunks :: "'a list \<Rightarrow> 'a list list" where
  "chunks xs = (if xs = [] then [] else take 65536 xs # chunks (drop 65536 xs))"
  by pat_completeness auto
termination
  by (relation "measure length") auto

definition accepted_whole :: "byte list \<Rightarrow> writeResult" where
  "accepted_whole c = (int (length c), None)"

definition write_step :: "byte list \<Rightarrow> action list" where
  "write_step c = [Ev (Write c), Ev (SetWriteDeadline (30 * second))]"

subsection \<open>An example run\<close>

text \<open>
  Two slots: a duplex stream that delivers 3 bytes and ends, and a slot whose duplex
  accept times out and whose one-way stream delivers 4 bytes with the end of stream; a
  schedule that interleaves the two tasks to completion; and a slot for which both
  accepts time out.
\<close>

definition example_cfg :: config where
  "example_cfg = \<lparr>url = ''emes.bj'', port = 4447, numberStream = 2, dataSize = 262144,
     downloadUni = False, readTO = 30 * second, idleTO = 45 * second\<rparr>"

definition example_env :: "nat \<Rightarrow> slot" where
  "example_env ix =
     (if ix = 0
      then \<lparr>bidiAccept = Inr [(3, None), (0, Some EOF)], uniAccept = Inl EOF,
            elapsed = 2 * second\<rparr>
      else \<lparr>bidiAccept = Inl (Error ''deadline exceeded'' (Some True)),
            uniAccept = Inr \<lparr>uniReads = [(4, Some EOF)], uniHasDeadline = True\<rparr>,
            elapsed = 4 * second\<rparr>)"

definition example_sched :: "nat list" where
  "example_sched = [0,1,0,1,0,1,1,0,0,0,0,1,1,1,1,0,0,0,0,0,0,0,1,1,1,1,1,0]"

definition failing_slot :: slot where
  "failing_slot =
     \<lparr>bidiAccept = Inl (Error ''context deadline exceeded'' (Some True)),
      uniAccept = Inl (Error ''context deadline exceeded'' (Some True)),
      elapsed = 0\<rparr>"

section \<open>Properties of the model\<close>

subsection \<open>Payload generator\<close>

lemma park_miller_bound: "park_miller k < 2147483647"
proof (cases k)
  case 0 then show ?thesis by simp
next
  case (Suc j)
  have "park_miller j * 48271 mod 2147483647 < 2147483647"
    by (rule mod_less_divisor) simp
  with Suc show ?thesis by simp
qed

lemma seed_step:
  assumes "a < 2147483647"
  shows "(of_nat a :: uint64) * 48271 mod 2147483647 = of_nat (a * 48271 mod 2147483647)"
proof -
  have lt: "a * 48271 < 2 ^ 64"
  proof -
    have "a * 48271 < 2147483647 * 48271" using assms by simp
    also have "\<dots> < (2::nat) ^ 64" by simp
    finally show ?thesis .
  qed
  have m: "unat (of_nat a * 48271 :: uint64) = a * 48271"
  proof -
    have "(of_nat a * 48271 :: uint64) = of_nat (a * 48271)" by simp
    then show ?thesis using lt by (simp add: unat_of_nat del: of_nat_mult)
  qed
  have "unat ((of_nat a :: uint64) * 48271 mod 2147483647) = a * 48271 mod 2147483647"
    by (simp add: unat_mod m)
  moreover have "unat (of_nat (a * 48271 mod 2147483647) :: uint64) = a * 48271 mod 2147483647"
  proof -
    have "a * 48271 mod 2147483647 < 2147483647" by (rule mod_less_divisor) simp
    also have "\<dots> < (2::nat) ^ 64" by simp
    finally show ?thesis by (simp add: unat_of_nat)
  qed
  ultimately show ?thesis by (simp add: word_unat_eq_iff)
qed

lemma seed_park_miller:
  "(of_nat (park_miller k) :: uint64) * 48271 mod 2147483647 = of_nat (park_miller (Suc k))"
  using seed_step [OF park_miller_bound [of k]] by simp

lemma byte_of_seed: "(ucast (of_nat v :: uint64) :: byte) = low_byte v"
proof -
  have "unat (ucast (of_nat v :: uint64) :: byte) = unat (of_nat (v mod 256) :: byte)"
    by (simp add: unsigned_ucast_eq unat_of_nat take_bit_eq_mod mod_mod_cancel)
  then show ?thesis by (simp add: word_unat_eq_iff low_byte_def)
qed

lemma genLoop_inv:
  assumes "0 \<le> i" "i \<le> l" "length res = nat l"
  shows "genLoop l i (of_nat (park_miller (nat i))) res =
         take (nat i) res @ map (\<lambda>k. low_byte (park_miller (Suc k))) [nat i..<nat l]"
  using assms
proof (induction "nat (l - i)" arbitrary: i res)
  case 0
  then have "i = l" by simp
  with 0 show ?case by simp
next
  case (Suc d)
  then have lt: "i < l" by linarith
  let ?b = "low_byte (park_miller (Suc (nat i)))"
  let ?res = "res[nat i := ?b]"
  have n: "nat (i + 1) = Suc (nat i)" using Suc.prems by simp
  have inb: "nat i < length res" using Suc.prems lt by simp
  have "genLoop l i (of_nat (park_miller (nat i))) res =
        genLoop l (i + 1) (of_nat (park_miller (nat (i + 1)))) ?res"
    using lt by (subst genLoop.simps)
      (simp add: Let_def seed_park_miller byte_of_seed n del: park_miller.simps genLoop.simps)
  also have "\<dots> = take (nat (i + 1)) ?res @
       map (\<lambda>k. low_byte (park_miller (Suc k))) [nat (i + 1)..<nat l]"
  proof (rule Suc.hyps(1))
    show "d = nat (l - (i + 1))" using Suc.hyps(2) by linarith
    show "0 \<le> i + 1" using Suc.prems by simp
    show "i + 1 \<le> l" using lt by simp
    show "length ?res = nat l" using Suc.prems by simp
  qed
  also have "take (nat (i + 1)) ?res = take (nat i) res @ [?b]"
    using inb by (simp add: n take_Suc_conv_app_nth)
  also have "[nat (i + 1)..<nat l] = [Suc (nat i)..<nat l]" by (simp add: n)
  finally show ?case using lt Suc.prems
    by (simp add: upt_conv_Cons del: park_miller.simps)
qed

lemma generatePRData_refines:
  "0 \<le> n \<Longrightarrow> generatePRData n = Inr (pm_bytes (nat n))"
  using genLoop_inv [of 0 n "replicate (nat n) 0"]
  by (simp add: generatePRData_def pm_bytes_def del: genLoop.simps park_miller.simps(2))

lemma pm_bytes_length: "length (pm_bytes n) = n"
  by (simp add: pm_bytes_def)

lemma pm_bytes_nth: "i < n \<Longrightarrow> pm_bytes n ! i = low_byte (park_miller (Suc i))"
  by (simp add: pm_bytes_def del: park_miller.simps)

lemma pm_bytes_first: "0 < n \<Longrightarrow> pm_bytes n ! 0 = 143"
  by (simp add: pm_bytes_def low_byte_def)

subsection \<open>Interleaved execution: steps and invariants\<close>

lemma scan_mode_of: "scan m r \<Longrightarrow> mode_of r = m"
  by (induction m r rule: scan.induct) auto

lemma incs_append: "incs (xs @ ys) = incs xs + incs ys"
  by (induction xs rule: incs.induct) auto

lemma durs_append: "durs (xs @ ys) = durs xs @ durs ys"
  by (induction xs rule: durs.induct) auto

lemma dones_append: "dones (xs @ ys) = dones xs + dones ys"
  by (induction xs rule: dones.induct) auto

lemma exec_frame:
  assumes "exec a i t s = Some s'"
  shows "\<exists>t'. tasks s' = (tasks s)[i := t'] \<and> pc t' = pc t \<and> hist t' = hist t \<and>
           reg_total t' = (if a = LoadTotal then total_sh s else reg_total t) \<and>
           reg_times t' = (if a = LoadTimes then times_sh s else reg_times t)"
  using assms by (cases a) (auto simp: exec_def split: if_splits)

lemma exec_shared:
  assumes "exec a i t s = Some s'"
  shows "total_sh s' = (case a of StoreTotal n \<Rightarrow> reg_total t + n | _ \<Rightarrow> total_sh s)"
    and "times_sh s' = (case a of StoreTimes d \<Rightarrow> reg_times t @ [d] | _ \<Rightarrow> times_sh s)"
    and "mu_sh s' = (case a of Lock \<Rightarrow> True | Unlock \<Rightarrow> False | _ \<Rightarrow> mu_sh s)"
    and "a = Lock \<longrightarrow> \<not> mu_sh s"
    and "a \<noteq> Blocked"
    and "w_sh s' = (if a = WgDone \<and> 0 < w_sh s then w_sh s - 1 else w_sh s)"
    and "crashed s' =
           (case a of
              Unlock \<Rightarrow> if mu_sh s then crashed s else Some UnlockOfUnlockedMutex
            | WgDone \<Rightarrow> if w_sh s - 1 < 0 then Some NegativeWaitGroupCounter else crashed s
            | Crash p \<Rightarrow> Some p
            | _ \<Rightarrow> crashed s)"
  using assms by (cases a; auto simp: exec_def split: if_splits)+

lemma stepE:
  assumes "step i s = Some s'"
  obtains a r t' where
    "i < length (tasks s)" "crashed s = None" "pc (tasks s ! i) = a # r"
    "tasks s' = (tasks s)[i := t']" "pc t' = r" "hist t' = hist (tasks s ! i) @ [a]"
    "reg_total t' = (if a = LoadTotal then total_sh s else reg_total (tasks s ! i))"
    "reg_times t' = (if a = LoadTimes then times_sh s else reg_times (tasks s ! i))"
    "total_sh s' = (case a of StoreTotal n \<Rightarrow> reg_total (tasks s ! i) + n | _ \<Rightarrow> total_sh s)"
    "times_sh s' = (case a of StoreTimes d \<Rightarrow> reg_times (tasks s ! i) @ [d] | _ \<Rightarrow> times_sh s)"
    "mu_sh s' = (case a of Lock \<Rightarrow> True | Unlock \<Rightarrow> False | _ \<Rightarrow> mu_sh s)"
    "a = Lock \<longrightarrow> \<not> mu_sh s" "a \<noteq> Blocked"
    "w_sh s' = (if a = WgDone \<and> 0 < w_sh s then w_sh s - 1 else w_sh s)"
    "crashed s' =
           (case a of
              Unlock \<Rightarrow> if mu_sh s then None else Some UnlockOfUnlockedMutex
            | WgDone \<Rightarrow> if w_sh s - 1 < 0 then Some NegativeWaitGroupCounter else None
            | Crash p \<Rightarrow> Some p
            | _ \<Rightarrow> None)"
proof -
  from assms have c: "crashed s = None" and i: "i < length (tasks s)"
    by (auto simp: step_def split: if_splits)
  from assms c i obtain a r where ar: "pc (tasks s ! i) = a # r"
    and ex: "exec a i ((tasks s ! i)\<lparr>pc := r, hist := hist (tasks s ! i) @ [a]\<rparr>) s = Some s'"
    by (auto simp: step_def split: if_splits list.splits)
  from exec_frame [OF ex] obtain t' where t': "tasks s' = (tasks s)[i := t']" "pc t' = r"
    "hist t' = hist (tasks s ! i) @ [a]"
    "reg_total t' = (if a = LoadTotal then total_sh s else reg_total (tasks s ! i))"
    "reg_times t' = (if a = LoadTimes then times_sh s else reg_times (tasks s ! i))"
    by auto
  have "total_sh s' = (case a of StoreTotal n \<Rightarrow> reg_total (tasks s ! i) + n | _ \<Rightarrow> total_sh s)"
    using exec_shared(1) [OF ex] by (cases a) simp_all
  moreover have "times_sh s' = (case a of StoreTimes d \<Rightarrow> reg_times (tasks s ! i) @ [d] | _ \<Rightarrow> times_sh s)"
    using exec_shared(2) [OF ex] by (cases a) simp_all
  moreover have "crashed s' =
           (case a of
              Unlock \<Rightarrow> if mu_sh s then None else Some UnlockOfUnlockedMutex
            | WgDone \<Rightarrow> if w_sh s - 1 < 0 then Some NegativeWaitGroupCounter else None
            | Crash p \<Rightarrow> Some p
            | _ \<Rightarrow> None)"
    using exec_shared(7) [OF ex] c by (cases a) simp_all
  ultimately show thesis
    using that [OF i c ar t'] exec_shared(3-6) [OF ex] by blast
qed

lemma scan_next:
  assumes "scan m (a # r)"
  shows "scan (mode_of r) r"
    and "mode_of (a # r) = m"
    and "mode_of r =
           (case a of Lock \<Rightarrow> GotLock | LoadTotal \<Rightarrow> LoadedTotal | LoadTimes \<Rightarrow> LoadedTimes
            | StoreTotal n \<Rightarrow> Stored | StoreTimes d \<Rightarrow> Stored | _ \<Rightarrow> Out)"
    and "\<forall>p. a \<noteq> Crash p"
proof -
  show "mode_of (a # r) = m" using assms by (rule scan_mode_of)
  have "\<exists>m'. scan m' r \<and> m' =
           (case a of Lock \<Rightarrow> GotLock | LoadTotal \<Rightarrow> LoadedTotal | LoadTimes \<Rightarrow> LoadedTimes
            | StoreTotal n \<Rightarrow> Stored | StoreTimes d \<Rightarrow> Stored | _ \<Rightarrow> Out)"
    using assms by (cases m; cases a) simp_all
  then obtain m' where m': "scan m' r" "m' =
           (case a of Lock \<Rightarrow> GotLock | LoadTotal \<Rightarrow> LoadedTotal | LoadTimes \<Rightarrow> LoadedTimes
            | StoreTotal n \<Rightarrow> Stored | StoreTimes d \<Rightarrow> Stored | _ \<Rightarrow> Out)"
    by blast
  from m'(1) have "mode_of r = m'" by (rule scan_mode_of)
  with m' show "scan (mode_of r) r" and "mode_of r =
           (case a of Lock \<Rightarrow> GotLock | LoadTotal \<Rightarrow> LoadedTotal | LoadTimes \<Rightarrow> LoadedTimes
            | StoreTotal n \<Rightarrow> Stored | StoreTimes d \<Rightarrow> Stored | _ \<Rightarrow> Out)"
    by simp_all
  show "\<forall>p. a \<noteq> Crash p" using assms by (cases m; cases a) simp_all
qed

lemma step_inv_disc:
  assumes st: "step i s = Some s'" and d: "inv_disc s"
  shows "inv_disc s'"
proof -
  from st obtain a r t' where f: "i < length (tasks s)" "pc (tasks s ! i) = a # r"
    "tasks s' = (tasks s)[i := t']" "pc t' = r"
    by (rule stepE)
  from d f(1,2) have "scan (mode_of (a # r)) (a # r)"
    by (auto simp: inv_disc_def)
  then have "scan (mode_of r) r" by (rule scan_next(1))
  with d f show ?thesis
    by (auto simp: inv_disc_def nth_list_update)
qed

lemma mutex_update:
  assumes "m \<longleftrightarrow> (\<exists>j<n. h j)"
    and "\<forall>j k. j < n \<and> k < n \<and> h j \<and> h k \<longrightarrow> j = k"
    and "i < (n::nat)"
    and "\<forall>j. j \<noteq> i \<longrightarrow> h' j = h j"
    and "(h i \<and> h' i \<and> m' = m) \<or> (\<not> h i \<and> \<not> h' i \<and> m' = m) \<or>
         (\<not> h i \<and> h' i \<and> \<not> m \<and> m') \<or> (h i \<and> \<not> h' i \<and> \<not> m')"
  shows "(m' \<longleftrightarrow> (\<exists>j<n. h' j)) \<and> (\<forall>j k. j < n \<and> k < n \<and> h' j \<and> h' k \<longrightarrow> j = k)"
  using assms by metis

lemma step_inv_mutex:
  assumes st: "step i s = Some s'" and d: "inv_disc s" and m: "inv_mutex s"
  shows "inv_mutex s'"
proof -
  from st obtain a r t' where f: "i < length (tasks s)" "pc (tasks s ! i) = a # r"
    "tasks s' = (tasks s)[i := t']" "pc t' = r"
    "mu_sh s' = (case a of Lock \<Rightarrow> True | Unlock \<Rightarrow> False | _ \<Rightarrow> mu_sh s)"
    "a = Lock \<longrightarrow> \<not> mu_sh s"
    by (rule stepE)
  let ?h = "\<lambda>j. holds_lock (tasks s ! j)" and ?h' = "\<lambda>j. holds_lock (tasks s' ! j)"
  from d f(1,2) have sc: "scan (mode_of (a # r)) (a # r)"
    by (auto simp: inv_disc_def)
  note nx = scan_next(3) [OF sc]
  have hi: "?h i = (mode_of (a # r) \<noteq> Out)" using f by (simp add: holds_lock_def)
  have hi': "?h' i = (mode_of r \<noteq> Out)" using f by (simp add: holds_lock_def)
  have mh: "?h i \<longrightarrow> mu_sh s" using m f(1) by (auto simp: inv_mutex_def)
  have oth: "\<forall>j. j \<noteq> i \<longrightarrow> ?h' j = ?h j" using f by simp
  have trans: "(?h i \<and> ?h' i \<and> mu_sh s' = mu_sh s) \<or> (\<not> ?h i \<and> \<not> ?h' i \<and> mu_sh s' = mu_sh s) \<or>
         (\<not> ?h i \<and> ?h' i \<and> \<not> mu_sh s \<and> mu_sh s') \<or> (?h i \<and> \<not> ?h' i \<and> \<not> mu_sh s')"
    using sc nx f(5,6) mh unfolding hi hi' by (cases a) simp_all
  have "(mu_sh s' \<longleftrightarrow> (\<exists>j<length (tasks s). ?h' j)) \<and>
        (\<forall>j k. j < length (tasks s) \<and> k < length (tasks s) \<and> ?h' j \<and> ?h' k \<longrightarrow> j = k)"
    using m f(1) oth trans unfolding inv_mutex_def by (intro mutex_update [where h = ?h and m = "mu_sh s"]) blast+
  then show ?thesis using f(3) by (simp add: inv_mutex_def)
qed

lemma step_inv_regs:
  assumes st: "step i s = Some s'" and d: "inv_disc s" and m: "inv_mutex s" and g: "inv_regs s"
  shows "inv_regs s'"
proof -
  from st obtain a r t' where f: "i < length (tasks s)" "pc (tasks s ! i) = a # r"
    "tasks s' = (tasks s)[i := t']" "pc t' = r"
    "reg_total t' = (if a = LoadTotal then total_sh s else reg_total (tasks s ! i))"
    "reg_times t' = (if a = LoadTimes then times_sh s else reg_times (tasks s ! i))"
    "total_sh s' = (case a of StoreTotal n \<Rightarrow> reg_total (tasks s ! i) + n | _ \<Rightarrow> total_sh s)"
    "times_sh s' = (case a of StoreTimes d \<Rightarrow> reg_times (tasks s ! i) @ [d] | _ \<Rightarrow> times_sh s)"
    by (rule stepE)
  from d f(1,2) have sc: "scan (mode_of (a # r)) (a # r)"
    by (auto simp: inv_disc_def)
  note nx = scan_next(3) [OF sc]
  have own: "(mode_of (pc t') = LoadedTotal \<longrightarrow> reg_total t' = total_sh s') \<and>
             (mode_of (pc t') = LoadedTimes \<longrightarrow> reg_times t' = times_sh s')"
    using nx f(4-8) by (cases a) simp_all
  have other: "(mode_of (pc (tasks s ! j)) = LoadedTotal \<longrightarrow> reg_total (tasks s ! j) = total_sh s') \<and>
               (mode_of (pc (tasks s ! j)) = LoadedTimes \<longrightarrow> reg_times (tasks s ! j) = times_sh s')"
    if j: "j < length (tasks s)" "j \<noteq> i" for j
  proof (cases "holds_lock (tasks s ! j)")
    case False
    then show ?thesis by (simp add: holds_lock_def)
  next
    case True
    with m j f(1) have "\<not> holds_lock (tasks s ! i)" by (auto simp: inv_mutex_def)
    then have "mode_of (a # r) = Out" using f(2) by (simp add: holds_lock_def)
    then have "total_sh s' = total_sh s" "times_sh s' = times_sh s"
      using f(7,8) by (cases a; simp)+
    with g j(1) show ?thesis by (simp add: inv_regs_def)
  qed
  show ?thesis
    unfolding inv_regs_def
  proof (intro allI impI)
    fix j assume "j < length (tasks s')"
    then have j: "j < length (tasks s)" using f(3) by simp
    show "(mode_of (pc (tasks s' ! j)) = LoadedTotal \<longrightarrow> reg_total (tasks s' ! j) = total_sh s') \<and>
          (mode_of (pc (tasks s' ! j)) = LoadedTimes \<longrightarrow> reg_times (tasks s' ! j) = times_sh s')"
    proof (cases "j = i")
      case True
      with own f(1,3) show ?thesis by simp
    next
      case False
      with other [OF j] f(3) show ?thesis by simp
    qed
  qed
qed

lemma sum_list_map_update:
  fixes f :: "'a \<Rightarrow> int"
  assumes "i < length xs"
  shows "(\<Sum>x \<leftarrow> xs[i := y]. f x) = (\<Sum>x \<leftarrow> xs. f x) - f (xs ! i) + f y"
  using assms
proof (induction xs arbitrary: i)
  case Nil
  then show ?case by simp
next
  case (Cons x xs)
  then show ?case by (cases i) simp_all
qed

lemma sum_list_le_length:
  assumes "\<forall>j < length xs. f (xs ! j) \<le> (1::nat)"
  shows "(\<Sum>x \<leftarrow> xs. int (f x)) \<le> int (length xs)"
  using assms
proof (induction xs)
  case Nil
  then show ?case by simp
next
  case (Cons x xs)
  from Cons.prems have "f x \<le> 1" by (auto dest: spec [of _ 0])
  moreover from Cons.prems have "\<forall>j < length xs. f (xs ! j) \<le> 1" by auto
  ultimately show ?case using Cons.IH by simp
qed

lemma step_inv_sums:
  assumes st: "step i s = Some s'" and d: "inv_disc s" and g: "inv_regs s" and u: "inv_sums s"
  shows "inv_sums s'"
proof -
  from st obtain a r t' where f: "i < length (tasks s)" "pc (tasks s ! i) = a # r"
    "tasks s' = (tasks s)[i := t']" "hist t' = hist (tasks s ! i) @ [a]"
    "total_sh s' = (case a of StoreTotal n \<Rightarrow> reg_total (tasks s ! i) + n | _ \<Rightarrow> total_sh s)"
    "times_sh s' = (case a of StoreTimes d \<Rightarrow> reg_times (tasks s ! i) @ [d] | _ \<Rightarrow> times_sh s)"
    by (rule stepE)
  from g f(1,2) have r1: "(\<exists>n. a = StoreTotal n) \<longrightarrow> reg_total (tasks s ! i) = total_sh s"
    and r2: "(\<exists>d. a = StoreTimes d) \<longrightarrow> reg_times (tasks s ! i) = times_sh s"
    by (auto simp: inv_regs_def)
  have t: "total_sh s' = total_sh s + incs [a]"
    using f(5) r1 by (cases a) simp_all
  have l: "int (length (times_sh s')) = int (length (times_sh s)) + int (length (durs [a]))"
    using f(6) r2 by (cases a) simp_all
  show ?thesis
    using u t l f(1)
    by (simp add: inv_sums_def f(3,4) sum_list_map_update incs_append durs_append)
qed

lemma sum_list_lt_length:
  assumes "\<forall>j < length xs. f (xs ! j) \<le> (1::nat)" and "i < length xs" and "f (xs ! i) = 0"
  shows "(\<Sum>x \<leftarrow> xs. int (f x)) < int (length xs)"
  using assms
proof (induction xs arbitrary: i)
  case Nil
  then show ?case by simp
next
  case (Cons x xs)
  from Cons.prems(1) have hd: "f x \<le> 1" by (auto dest: spec [of _ 0])
  from Cons.prems(1) have tl: "\<forall>j < length xs. f (xs ! j) \<le> 1" by auto
  show ?case
  proof (cases i)
    case 0
    with Cons.prems(3) have "f x = 0" by simp
    with sum_list_le_length [OF tl] show ?thesis by simp
  next
    case (Suc k)
    with Cons.prems have "k < length xs" "f (xs ! k) = 0" by simp_all
    from Cons.IH [OF tl this] hd show ?thesis by simp
  qed
qed

lemma step_inv_wg:
  assumes st: "step i s = Some s'" and d: "inv_disc s" and w: "inv_wg s"
  shows "inv_wg s'" and "pc (tasks s ! i) = WgDone # r \<longrightarrow> 0 < w_sh s"
proof -
  from st obtain a r' t' where f: "i < length (tasks s)" "pc (tasks s ! i) = a # r'"
    "tasks s' = (tasks s)[i := t']" "pc t' = r'" "hist t' = hist (tasks s ! i) @ [a]"
    "w_sh s' = (if a = WgDone \<and> 0 < w_sh s then w_sh s - 1 else w_sh s)"
    by (rule stepE)
  from w have le: "\<forall>j < length (tasks s). dones (hist (tasks s ! j)) \<le> 1"
    by (auto simp: inv_wg_def)
  have pos: "0 < w_sh s" if "a = WgDone"
  proof -
    from w f(1,2) that have "dones (hist (tasks s ! i)) = 0"
      by (auto simp: inv_wg_def dest!: spec [of _ i])
    with le f(1) have "(\<Sum>t \<leftarrow> tasks s. int (dones (hist t))) < int (length (tasks s))"
      by (intro sum_list_lt_length [where f = "\<lambda>t. dones (hist t)" and i = i]) auto
    with w show ?thesis by (simp add: inv_wg_def)
  qed
  show "pc (tasks s ! i) = WgDone # r \<longrightarrow> 0 < w_sh s"
    using pos f(2) by simp
  have dn: "int (dones (hist t')) = int (dones (hist (tasks s ! i))) + (if a = WgDone then 1 else 0)"
    by (cases a) (simp_all add: f(5) dones_append)
  have keep: "dones (hist t') + dones (pc t') = dones (hist (tasks s ! i)) + dones (pc (tasks s ! i))"
    by (cases a) (simp_all add: f(2,4,5) dones_append)
  have "w_sh s' + (\<Sum>t \<leftarrow> tasks s'. int (dones (hist t))) = int (length (tasks s'))"
    using w f(1,6) pos dn by (simp add: inv_wg_def f(3) sum_list_map_update)
  moreover have "\<forall>j < length (tasks s'). dones (hist (tasks s' ! j)) + dones (pc (tasks s' ! j)) \<le> 1"
    using w keep f(1) by (auto simp: inv_wg_def f(3) nth_list_update)
  moreover have "\<forall>j < length (tasks s'). 0 < dones (hist (tasks s' ! j)) \<longrightarrow> pc (tasks s' ! j) = []"
  proof (intro allI impI)
    fix j assume j: "j < length (tasks s')" and p: "0 < dones (hist (tasks s' ! j))"
    show "pc (tasks s' ! j) = []"
    proof (cases "j = i")
      case False
      with w j p show ?thesis by (simp add: inv_wg_def f(3))
    next
      case True
      from w f(1,2) have "dones (hist (tasks s ! i)) = 0"
        by (auto simp: inv_wg_def)
      with p True f(1) have "a = WgDone"
        by (cases a) (simp_all add: f(3,5) dones_append)
      moreover from d f(1,2) have "scan (mode_of (a # r')) (a # r')"
        by (auto simp: inv_disc_def)
      ultimately have "r' = []" by simp
      with True f(1) show ?thesis by (simp add: f(3,4))
    qed
  qed
  ultimately show "inv_wg s'" by (simp add: inv_wg_def)
qed

lemma step_inv:
  assumes st: "step i s = Some s'" and v: "inv_all s"
  shows "inv_all s'"
proof -
  from v have d: "inv_disc s" and m: "inv_mutex s" and g: "inv_regs s" and u: "inv_sums s"
    and w: "inv_wg s"
    by (simp_all add: inv_all_def)
  from st obtain a r t' where f: "i < length (tasks s)" "pc (tasks s ! i) = a # r"
    "crashed s' =
           (case a of
              Unlock \<Rightarrow> if mu_sh s then None else Some UnlockOfUnlockedMutex
            | WgDone \<Rightarrow> if w_sh s - 1 < 0 then Some NegativeWaitGroupCounter else None
            | Crash p \<Rightarrow> Some p
            | _ \<Rightarrow> None)"
    by (rule stepE)
  from d f(1,2) have sc: "scan (mode_of (a # r)) (a # r)"
    by (auto simp: inv_disc_def)
  have "holds_lock (tasks s ! i)" if "a = Unlock"
    using that f(2) by (simp add: holds_lock_def)
  with m f(1) have mu: "a = Unlock \<longrightarrow> mu_sh s" by (auto simp: inv_mutex_def)
  from step_inv_wg(2) [OF st d w, of r] f(2) have wg: "a = WgDone \<longrightarrow> 0 < w_sh s" by simp
  have "crashed s' = None"
    using f(3) mu wg scan_next(4) [OF sc] by (cases a) simp_all
  then show ?thesis
    using step_inv_disc [OF st d] step_inv_mutex [OF st d m] step_inv_regs [OF st d m g]
      step_inv_sums [OF st d g u] step_inv_wg(1) [OF st d w]
    by (simp add: inv_all_def)
qed

lemma run_inv: "run sched s = Some s' \<Longrightarrow> inv_all s \<Longrightarrow> inv_all s'"
proof (induction sched arbitrary: s)
  case Nil
  then show ?case by simp
next
  case (Cons i sched)
  then show ?case by (auto split: option.splits dest: step_inv)
qed

lemma disciplined_dones: "scan m p \<Longrightarrow> dones p \<le> 1"
  by (induction m p rule: scan.induct) auto

lemma start_inv:
  assumes "\<forall>p \<in> set ps. disciplined p"
  shows "inv_all (start ps)"
proof -
  have sc: "scan Out (ps ! j)" if "j < length ps" for j
    using assms that by (auto simp: disciplined_def)
  have m: "mode_of (ps ! j) = Out" if "j < length ps" for j
    using sc [OF that] by (rule scan_mode_of)
  have z1: "(\<Sum>t \<leftarrow> map spawn ps. incs (hist t)) = 0"
    by (induction ps) (simp_all add: spawn_def)
  have z2: "(\<Sum>t \<leftarrow> map spawn ps. int (length (durs (hist t)))) = 0"
    by (induction ps) (simp_all add: spawn_def)
  have z3: "(\<Sum>t \<leftarrow> map spawn ps. int (dones (hist t))) = 0"
    by (induction ps) (simp_all add: spawn_def)
  show ?thesis
    unfolding inv_all_def
  proof (intro conjI)
    show "crashed (start ps) = None" by (simp add: start_def)
    show "inv_disc (start ps)" using sc m by (simp add: inv_disc_def start_def spawn_def)
    show "inv_mutex (start ps)" using m by (auto simp: inv_mutex_def start_def spawn_def holds_lock_def)
    show "inv_regs (start ps)" using m by (simp add: inv_regs_def start_def spawn_def)
    show "inv_sums (start ps)" using z1 z2 by (simp add: inv_sums_def start_def)
    show "inv_wg (start ps)"
      using z3 disciplined_dones [OF sc] by (auto simp: inv_wg_def start_def spawn_def)
  qed
qed

lemma step_code_of: "step i s = Some s' \<Longrightarrow> code_of s' = code_of s"
proof (erule stepE)
  fix a r t'
  assume "i < length (tasks s)" "pc (tasks s ! i) = a # r" "tasks s' = (tasks s)[i := t']"
    "pc t' = r" "hist t' = hist (tasks s ! i) @ [a]"
  then show "code_of s' = code_of s"
    by (simp add: code_of_def map_update list_update_same_conv)
qed

lemma run_code_of: "run sched s = Some s' \<Longrightarrow> code_of s' = code_of s"
proof (induction sched arbitrary: s)
  case Nil
  then show ?case by simp
next
  case (Cons i sched)
  then show ?case by (auto split: option.splits dest: step_code_of)
qed

lemma start_code_of: "code_of (start ps) = ps"
  by (simp add: code_of_def start_def spawn_def comp_def)

lemma barrier_all_done:
  assumes v: "inv_all s" and z: "w_sh s = 0" and j: "j < length (tasks s)"
  shows "pc (tasks s ! j) = []"
proof -
  from v have w: "inv_wg s" by (simp add: inv_all_def)
  then have le: "\<forall>j < length (tasks s). dones (hist (tasks s ! j)) \<le> 1"
    by (auto simp: inv_wg_def)
  have "0 < dones (hist (tasks s ! j))"
  proof (rule ccontr)
    assume "\<not> 0 < dones (hist (tasks s ! j))"
    then have "dones (hist (tasks s ! j)) = 0" by simp
    with le j have "(\<Sum>t \<leftarrow> tasks s. int (dones (hist t))) < int (length (tasks s))"
      by (intro sum_list_lt_length [where f = "\<lambda>t. dones (hist t)" and i = j]) auto
    with w z show False by (simp add: inv_wg_def)
  qed
  with w j show ?thesis by (simp add: inv_wg_def)
qed

lemma barrier_hist:
  assumes v: "inv_all s" and z: "w_sh s = 0"
  shows "map hist (tasks s) = code_of s"
proof (rule nth_equalityI)
  show "length (map hist (tasks s)) = length (code_of s)" by (simp add: code_of_def)
next
  fix j assume "j < length (map hist (tasks s))"
  then have j: "j < length (tasks s)" by simp
  from barrier_all_done [OF v z j] j show "map hist (tasks s) ! j = code_of s ! j"
    by (simp add: code_of_def)
qed

lemma barrier_dones:
  assumes v: "inv_all s" and z: "w_sh s = 0" and j: "j < length (tasks s)"
  shows "dones (hist (tasks s ! j)) = 1"
proof -
  from v have w: "inv_wg s" by (simp add: inv_all_def)
  then have le: "\<forall>j < length (tasks s). dones (hist (tasks s ! j)) \<le> 1"
    by (auto simp: inv_wg_def)
  have "0 < dones (hist (tasks s ! j))"
  proof (rule ccontr)
    assume "\<not> 0 < dones (hist (tasks s ! j))"
    then have "dones (hist (tasks s ! j)) = 0" by simp
    with le j have "(\<Sum>t \<leftarrow> tasks s. int (dones (hist t))) < int (length (tasks s))"
      by (intro sum_list_lt_length [where f = "\<lambda>t. dones (hist t)" and i = j]) auto
    with w z show False by (simp add: inv_wg_def)
  qed
  with le j show ?thesis by (auto simp: le_Suc_eq)
qed

lemma sum_hist_code:
  assumes "map hist (tasks s) = code_of s"
  shows "(\<Sum>t \<leftarrow> tasks s. f (hist t)) = (\<Sum>p \<leftarrow> code_of s. f p)"
proof -
  have "(\<Sum>t \<leftarrow> tasks s. f (hist t)) = (\<Sum>p \<leftarrow> map hist (tasks s). f p)"
    by (simp add: comp_def)
  with assms show ?thesis by simp
qed

lemma mutex_holder:
  assumes v: "inv_all s" and j: "j < length (tasks s)" and h: "holds_lock (tasks s ! j)"
  shows "mu_sh s \<and> (\<forall>k < length (tasks s). holds_lock (tasks s ! k) \<longrightarrow> k = j)"
  using assms by (auto simp: inv_all_def inv_mutex_def)

lemma step_local_enabled:
  assumes "crashed s = None" "i < length (tasks s)" "pc (tasks s ! i) = a # r"
    and "(\<exists>e. a = Ev e) \<or> (a = WgDone \<and> 0 < w_sh s)"
  shows "\<exists>s'. step i s = Some s'"
  using assms by (auto simp: step_def exec_def)

lemma step_frame:
  assumes st: "step i s = Some s'"
  shows "\<forall>j. j \<noteq> i \<longrightarrow> tasks s' ! j = tasks s ! j" and "length (tasks s') = length (tasks s)"
proof -
  from st obtain t' where "tasks s' = (tasks s)[i := t']" by (rule stepE)
  then show "\<forall>j. j \<noteq> i \<longrightarrow> tasks s' ! j = tasks s ! j" and "length (tasks s') = length (tasks s)"
    by simp_all
qed

lemma step_local_shared:
  assumes st: "step i s = Some s'" and "pc (tasks s ! i) = a # r"
    and "(\<exists>e. a = Ev e) \<or> a = WgDone"
  shows "total_sh s' = total_sh s \<and> times_sh s' = times_sh s \<and> mu_sh s' = mu_sh s"
proof -
  from st obtain a' r' where f: "pc (tasks s ! i) = a' # r'"
    "total_sh s' = (case a' of StoreTotal n \<Rightarrow> reg_total (tasks s ! i) + n | _ \<Rightarrow> total_sh s)"
    "times_sh s' = (case a' of StoreTimes d \<Rightarrow> reg_times (tasks s ! i) @ [d] | _ \<Rightarrow> times_sh s)"
    "mu_sh s' = (case a' of Lock \<Rightarrow> True | Unlock \<Rightarrow> False | _ \<Rightarrow> mu_sh s)"
    by (rule stepE)
  with assms(2) have "a' = a" by simp
  with f assms(3) show ?thesis by auto
qed

lemma step_enabled_cong:
  assumes "crashed s' = crashed s" "length (tasks s') = length (tasks s)"
    "tasks s' ! j = tasks s ! j" "mu_sh s' = mu_sh s"
  shows "(step j s' = None) = (step j s = None)"
proof (cases "crashed s \<noteq> None \<or> length (tasks s) \<le> j")
  case True
  with assms show ?thesis by (auto simp: step_def)
next
  case False
  show ?thesis
  proof (cases "pc (tasks s ! j)")
    case Nil
    with False assms show ?thesis by (simp add: step_def)
  next
    case (Cons a r)
    with False assms show ?thesis
      by (cases a) (simp_all add: step_def exec_def)
  qed
qed

lemma code_suffix:
  assumes "code_of s = ps" "j < length (tasks s)" "pc (tasks s ! j) = a # r"
  shows "a \<in> set (ps ! j)"
proof -
  from assms(1,2) have "ps ! j = hist (tasks s ! j) @ pc (tasks s ! j)"
    by (auto simp: code_of_def)
  with assms(3) show ?thesis by simp
qed

lemma sum_list_all_zero:
  assumes "\<forall>j < length xs. f (xs ! j) = (0::int)"
  shows "(\<Sum>x \<leftarrow> xs. f x) = 0"
  using assms
proof (induction xs)
  case Nil
  then show ?case by simp
next
  case (Cons x xs)
  from Cons.prems have "f x = 0" by (auto dest: spec [of _ 0])
  moreover from Cons.prems have "\<forall>j < length xs. f (xs ! j) = 0" by auto
  ultimately show ?case using Cons.IH by simp
qed

lemma sum_list_member_le:
  assumes "j < length xs"
  shows "int (f (xs ! j)) \<le> (\<Sum>x \<leftarrow> xs. int (f x))"
  using assms
proof (induction xs arbitrary: j)
  case Nil
  then show ?case by simp
next
  case (Cons x xs)
  have nn: "0 \<le> (\<Sum>x \<leftarrow> xs. int (f x))" by (induction xs) simp_all
  show ?case
  proof (cases j)
    case 0
    with nn show ?thesis by simp
  next
    case (Suc k)
    with Cons.prems have "k < length xs" by simp
    from Cons.IH [OF this] Suc show ?thesis by simp
  qed
qed

lemma sum_list_replicate_const:
  "(\<Sum>p \<leftarrow> replicate N x. f p) = int N * (f x :: int)"
  by (induction N) (simp_all add: algebra_simps)

lemma replicate_addTotal_disciplined:
  "\<forall>p \<in> set (replicate N (addTotal amount @ [WgDone])). disciplined p"
  by (simp add: disciplined_def addTotal_def)

subsection \<open>Read loops\<close>

lemma readLoopUni_char:
  "readLoopUni ok to rs k =
     concat (map (iterUni ok to) (consumed rs)) @
     (if exits rs then k else armUni ok to @ [Blocked])"
proof (induction rs)
  case Nil
  show ?case by (simp add: exits_def armUni_def)
next
  case (Cons r rs)
  obtain n rerr where r: "r = (n, rerr)" by (cases r)
  show ?case
  proof (cases "terminal r")
    case True
    then show ?thesis
      by (auto simp: r exits_def armUni_def split: option.splits)
  next
    case False
    then have "readLoopUni ok to (r # rs) k = iterUni ok to r @ readLoopUni ok to rs k"
      by (auto simp: r armUni_def split: option.splits)
    with False Cons.IH show ?thesis
      by (simp add: exits_def)
  qed
qed

lemma readLoopBidi_char:
  "readLoopBidi to rs k =
     concat (map (iterBidi to) (consumed rs)) @
     (if exits rs then k else [Ev (SetReadDeadline to), Blocked])"
proof (induction rs)
  case Nil
  show ?case by (simp add: exits_def)
next
  case (Cons r rs)
  obtain n rerr where r: "r = (n, rerr)" by (cases r)
  show ?case
  proof (cases "terminal r")
    case True
    then show ?thesis
      by (auto simp: r exits_def split: option.splits)
  next
    case False
    then have "readLoopBidi to (r # rs) k = iterBidi to r @ readLoopBidi to rs k"
      by (auto simp: r split: option.splits)
    with False Cons.IH show ?thesis
      by (simp add: exits_def)
  qed
qed

lemma readLoopBidi_Uni: "readLoopBidi to rs k = readLoopUni True to rs k"
  by (induction rs) (auto simp: split: option.splits)

lemma tolerated_not_terminal: "tolerated r \<Longrightarrow> \<not> terminal r"
  by (cases r) (auto simp: tolerated_def split: option.splits)

lemma consumed_nonterminal:
  "\<forall>r \<in> set pre. \<not> terminal r \<Longrightarrow> consumed (pre @ rs) = pre @ consumed rs"
  by (induction pre) simp_all

lemma exits_nonterminal:
  "\<forall>r \<in> set pre. \<not> terminal r \<Longrightarrow> exits (pre @ rs) = exits rs"
  by (induction pre) (simp_all add: exits_def)

lemma readLoopUni_continue:
  assumes "\<forall>r \<in> set pre. \<not> terminal r"
  shows "readLoopUni ok to (pre @ rs) k =
         concat (map (iterUni ok to) pre) @ readLoopUni ok to rs k"
  using assms
  by (simp add: readLoopUni_char consumed_nonterminal exits_nonterminal del: iterUni.simps)

lemma readLoopUni_exit:
  assumes "terminal r"
  shows "readLoopUni ok to (r # rs) k = iterUni ok to r @ k"
  using assms by (simp add: readLoopUni_char exits_def del: iterUni.simps)

lemma consumed_no_exit: "\<not> exits rs \<Longrightarrow> consumed rs = rs"
  by (induction rs) (simp_all add: exits_def)

lemma readLoopUni_stuck:
  assumes "\<forall>r \<in> set rs. \<not> terminal r"
  shows "readLoopUni ok to rs k = concat (map (iterUni ok to) rs) @ armUni ok to @ [Blocked]"
proof -
  from assms have "\<not> exits rs" by (simp add: exits_def list_ex_iff)
  then show ?thesis by (simp add: readLoopUni_char consumed_no_exit del: iterUni.simps)
qed

lemma iterBidi_Uni: "iterBidi to r = iterUni True to r"
  by (cases r) (simp add: armUni_def)

lemma readLoopUni_head:
  "\<exists>rest. readLoopUni ok to rs k = armUni ok to @ rest \<and>
     (\<exists>n rerr. hd rest = Ev (Read (64 * 1024) n rerr) \<or> hd rest = Blocked)"
  by (cases rs) (auto simp: armUni_def)

lemma consumed_nonempty: "consumed rs \<noteq> [] \<longleftrightarrow> rs \<noteq> []"
  by (cases rs) simp_all

lemma exits_nonempty: "exits rs \<Longrightarrow> rs \<noteq> []"
  by (auto simp: exits_def)

lemma no_accept_uni_in_loop:
  assumes "Ev (AcceptUniStream d) \<notin> set k"
  shows "Ev (AcceptUniStream d) \<notin> set (readLoopUni ok to rs k)"
  using assms
  by (induction rs) (auto simp: addTotal_def split: option.splits if_splits)

subsection \<open>Download tasks\<close>

lemma scan_addTotal: "scan Out (addTotal n @ k) = scan Out k"
  by (simp add: addTotal_def)

lemma scan_appendTimes: "scan Out (appendTimes d @ k) = scan Out k"
  by (simp add: appendTimes_def)

lemma scan_iterUni: "scan Out (iterUni ok to r @ k) = scan Out k"
  by (cases r) (simp add: armUni_def scan_addTotal)

lemma scan_iters: "scan Out (concat (map (iterUni ok to) rs) @ k) = scan Out k"
  by (induction rs) (simp_all add: scan_iterUni del: iterUni.simps)

lemma scan_readLoopUni: "scan Out k \<Longrightarrow> scan Out (readLoopUni ok to rs k)"
  by (simp add: readLoopUni_char scan_iters armUni_def)

lemma disciplined_downloadTask: "disciplined (downloadTask cfg env)"
  by (simp add: disciplined_def downloadTask_def readLoopBidi_Uni scan_readLoopUni
      scan_appendTimes split: sum.splits)

lemma incs_iters: "incs (concat (map (iterUni ok to) rs)) = received rs"
  by (induction rs) (auto simp: incs_append armUni_def addTotal_def)

lemma durs_iters: "durs (concat (map (iterUni ok to) rs)) = []"
  by (induction rs) (auto simp: durs_append armUni_def addTotal_def)

lemma dones_iters: "dones (concat (map (iterUni ok to) rs)) = 0"
  by (induction rs) (auto simp: dones_append armUni_def addTotal_def)

lemma downloadTask_incs:
  "incs (downloadTask cfg env) =
     (case accepted env of None \<Rightarrow> 0 | Some rs \<Rightarrow> received (consumed rs))"
  by (simp add: downloadTask_def accepted_def readLoopBidi_Uni readLoopUni_char incs_append
      incs_iters armUni_def appendTimes_def split: sum.splits)

lemma downloadTask_durs:
  "durs (downloadTask cfg env) =
     (case accepted env of None \<Rightarrow> [] | Some rs \<Rightarrow> if exits rs then [elapsed env] else [])"
  by (simp add: downloadTask_def accepted_def readLoopBidi_Uni readLoopUni_char durs_append
      durs_iters armUni_def appendTimes_def split: sum.splits)

lemma downloadTask_dones:
  "dones (downloadTask cfg env) =
     (case accepted env of None \<Rightarrow> 1 | Some rs \<Rightarrow> if exits rs then 1 else 0)"
  by (simp add: downloadTask_def accepted_def readLoopBidi_Uni readLoopUni_char dones_append
      dones_iters armUni_def appendTimes_def split: sum.splits)

lemma downloadTask_contributes:
  assumes "incs (downloadTask cfg e) \<noteq> 0" and "dones (downloadTask cfg e) = 1"
  shows "durs (downloadTask cfg e) = [elapsed e]"
proof (cases "accepted e")
  case None
  with assms(1) show ?thesis by (simp add: downloadTask_incs)
next
  case (Some rs)
  with assms(2) have "exits rs" by (simp add: downloadTask_dones split: if_splits)
  with Some show ?thesis by (simp add: downloadTask_durs)
qed

lemma records_duration_iff:
  "records_duration cfg e = (\<exists>rs. accepted e = Some rs \<and> exits rs)"
  by (cases "accepted e") (simp_all add: records_duration_def downloadTask_durs)

lemma failed_task:
  assumes "bidiAccept e = Inl err" "uniAccept e = Inl uerr"
  shows "downloadTask cfg e =
     [Ev (AcceptStream (30 * second)), Ev (AcceptUniStream (30 * second)),
      Ev (PrintStreamAcceptError err uerr), WgDone]"
  using assms by (simp add: downloadTask_def)

lemma downloadTask_toggle: "downloadTask (cfg\<lparr>downloadUni := b\<rparr>) e = downloadTask cfg e"
  by (simp add: downloadTask_def split: sum.splits)

lemma download_inv:
  assumes "run sched (start (downloadTasks cfg env)) = Some s"
  shows "inv_all s"
proof -
  have "\<forall>p \<in> set (downloadTasks cfg env). disciplined p"
    by (auto simp: downloadTasks_def disciplined_downloadTask)
  then have "inv_all (start (downloadTasks cfg env))" by (rule start_inv)
  with assms show ?thesis by (rule run_inv)
qed

lemma download_length:
  assumes "run sched (start (downloadTasks cfg env)) = Some s"
  shows "length (tasks s) = nat (numberStream cfg)" and "code_of s = downloadTasks cfg env"
proof -
  show c: "code_of s = downloadTasks cfg env"
    using run_code_of [OF assms] by (simp add: start_code_of)
  show "length (tasks s) = nat (numberStream cfg)"
    using arg_cong [OF c, of length] by (simp add: code_of_def downloadTasks_def)
qed

lemma barrier_times_nonempty:
  assumes r: "run sched (start (downloadTasks cfg env)) = Some s"
    and z: "w_sh s = 0" and t: "total_sh s \<noteq> 0"
  shows "times_sh s \<noteq> []"
proof -
  from r have v: "inv_all s" by (rule download_inv)
  have c: "code_of s = downloadTasks cfg env"
    using run_code_of [OF r] by (simp add: start_code_of)
  have h: "map hist (tasks s) = code_of s" by (rule barrier_hist [OF v z])
  have tot: "total_sh s = (\<Sum>t \<leftarrow> tasks s. incs (hist t))"
    and len: "int (length (times_sh s)) = (\<Sum>t \<leftarrow> tasks s. int (length (durs (hist t))))"
    using v by (simp_all add: inv_all_def inv_sums_def)
  from t tot obtain j where j: "j < length (tasks s)" "incs (hist (tasks s ! j)) \<noteq> 0"
    using sum_list_all_zero [of "tasks s" "\<lambda>t. incs (hist t)"] by auto
  from j(1) have jn: "j < nat (numberStream cfg)"
    using arg_cong [OF c, of length] by (simp add: code_of_def downloadTasks_def)
  from j(1) h have "hist (tasks s ! j) = code_of s ! j"
    by (metis nth_map)
  with jn have hj: "hist (tasks s ! j) = downloadTask cfg (env j)"
    by (simp add: c downloadTasks_def)
  from barrier_dones [OF v z j(1)] have "dones (downloadTask cfg (env j)) = 1"
    by (simp add: hj)
  with j(2) have "durs (hist (tasks s ! j)) = [elapsed (env j)]"
    unfolding hj by (intro downloadTask_contributes) simp_all
  then have "1 \<le> int (length (durs (hist (tasks s ! j))))" by simp
  also have "\<dots> \<le> (\<Sum>t \<leftarrow> tasks s. int (length (durs (hist t))))"
    by (rule sum_list_member_le [OF j(1), of "\<lambda>t. length (durs (hist t))"])
  finally show ?thesis using len by auto
qed

lemma barrier_durations_count:
  assumes r: "run sched (start (downloadTasks cfg env)) = Some s" and z: "w_sh s = 0"
  shows "int (length (times_sh s)) =
         (\<Sum>ix \<leftarrow> [0..<nat (numberStream cfg)]. if accepted (env ix) = None then 0 else 1)"
proof -
  from r have v: "inv_all s" by (rule download_inv)
  have c: "code_of s = downloadTasks cfg env"
    using run_code_of [OF r] by (simp add: start_code_of)
  have h: "map hist (tasks s) = code_of s" by (rule barrier_hist [OF v z])
  have n: "length (tasks s) = nat (numberStream cfg)"
    using arg_cong [OF c, of length] by (simp add: code_of_def downloadTasks_def)
  have d: "dones (downloadTask cfg (env ix)) = 1" if "ix < nat (numberStream cfg)" for ix
  proof -
    from that n have j: "ix < length (tasks s)" by simp
    with h have "hist (tasks s ! ix) = code_of s ! ix" by (metis nth_map)
    with that have "hist (tasks s ! ix) = downloadTask cfg (env ix)"
      by (simp add: c downloadTasks_def)
    with barrier_dones [OF v z j] show ?thesis by simp
  qed
  have e: "int (length (durs (downloadTask cfg (env ix)))) = (if accepted (env ix) = None then 0 else 1)"
    if "ix < nat (numberStream cfg)" for ix
    using d [OF that]
    by (cases "accepted (env ix)") (simp_all add: downloadTask_durs downloadTask_dones split: if_splits)
  have "int (length (times_sh s)) = (\<Sum>t \<leftarrow> tasks s. int (length (durs (hist t))))"
    using v by (simp add: inv_all_def inv_sums_def)
  also have "\<dots> = (\<Sum>p \<leftarrow> code_of s. int (length (durs p)))"
    by (rule sum_hist_code [OF h])
  also have "\<dots> = (\<Sum>ix \<leftarrow> [0..<nat (numberStream cfg)]. int (length (durs (downloadTask cfg (env ix)))))"
    by (simp add: c downloadTasks_def comp_def)
  also have "\<dots> = (\<Sum>ix \<leftarrow> [0..<nat (numberStream cfg)]. if accepted (env ix) = None then 0 else 1)"
    by (rule arg_cong [where f = sum_list], rule map_cong) (simp_all add: e)
  finally show ?thesis .
qed

subsection \<open>Measurement aggregator\<close>


lemma wrap_zero: "wrap (width sz) 0 = 0"
  by (cases sz) (simp_all add: wrap_def)







lemma report_wraps_around:
  "snd (report Int64 1152921504606846976 [second]) =
     Inr [ReceivedTotal 1152921504606846976 1, DownloadSpeed (Finite (- 8796093022208)),
          TestFinished] \<and>
   snd (report Int32 268435456 [second]) =
     Inr [ReceivedTotal 268435456 1, DownloadSpeed (Finite (- 2048)), TestFinished]"
  by code_simp





lemma report_at_barrier:
  assumes "run sched (start (downloadTasks cfg env)) = Some s" "w_sh s = 0"
  shows "downloadReport sz cfg env sched =
    Some (report sz (wrap (width sz) (total_sh s)) (times_sh s))"
proof -
  from assms(1) have "inv_all s" by (rule download_inv)
  then have "crashed s = None" by (simp add: inv_all_def)
  with assms show ?thesis by (simp add: downloadReport_def)
qed

























subsection \<open>Upload tasks\<close>

declare chunks.simps [simp del]

lemma chunks_Nil: "chunks [] = []"
  by (simp add: chunks.simps)

lemma chunks_Cons: "xs \<noteq> [] \<Longrightarrow> chunks xs = take 65536 xs # chunks (drop 65536 xs)"
  by (subst chunks.simps) simp

lemma concat_chunks: "concat (chunks xs) = xs"
proof (induction xs rule: chunks.induct)
  case (1 xs)
  show ?case
  proof (cases "xs = []")
    case True
    then show ?thesis by (simp add: chunks_Nil)
  next
    case False
    with 1 show ?thesis by (simp add: chunks_Cons)
  qed
qed

lemma chunks_nth:
  "i < length (chunks xs) \<Longrightarrow> chunks xs ! i = take 65536 (drop (i * 65536) xs)"
proof (induction xs arbitrary: i rule: chunks.induct)
  case (1 xs)
  show ?case
  proof (cases "xs = []")
    case True
    with 1(2) show ?thesis by (simp add: chunks_Nil)
  next
    case False
    show ?thesis
    proof (cases i)
      case 0
      with False show ?thesis by (simp add: chunks_Cons)
    next
      case (Suc j)
      with False 1(2) have "j < length (chunks (drop 65536 xs))" by (simp add: chunks_Cons)
      from 1(1) [OF False this] Suc False show ?thesis
        by (simp add: chunks_Cons add.commute)
    qed
  qed
qed

lemma chunks_nonempty: "c \<in> set (chunks xs) \<Longrightarrow> c \<noteq> []"
proof (induction xs rule: chunks.induct)
  case (1 xs)
  show ?case
  proof (cases "xs = []")
    case True
    with 1(2) show ?thesis by (simp add: chunks_Nil)
  next
    case False
    with 1 show ?thesis by (auto simp: chunks_Cons)
  qed
qed

lemma chunk_length:
  assumes "i < length (chunks (msg :: 'a list))"
  shows "length (chunks msg ! i) = min 65536 (length msg - i * 65536)" and "chunks msg ! i \<noteq> []"
proof -
  show "length (chunks msg ! i) = min 65536 (length msg - i * 65536)"
    using assms by (simp add: chunks_nth min.commute)
  show "chunks msg ! i \<noteq> []"
    using assms chunks_nonempty [of "chunks msg ! i" msg] by simp
qed

lemma slice_chunk:
  assumes "0 \<le> off" "off < int (length msg)"
  shows "slice_expr msg off (off + (if int (length msg) - off < 64 * 1024 then int (length msg) - off else 64 * 1024)) =
         Inr (take 65536 (drop (nat off) msg))"
    and "int (length (take 65536 (drop (nat off) msg))) =
         (if int (length msg) - off < 64 * 1024 then int (length msg) - off else 64 * 1024)"
  using assms by (auto simp: slice_expr_def min_def)

lemma uploadLoop_done: "uploadLoop msg off 0 ws k = k"
  by (cases ws) auto

lemma uploadLoop_prefix:
  assumes "0 \<le> off" "off \<le> int (length msg)" "j \<le> length (chunks (drop (nat off) msg))"
  shows "uploadLoop msg off (int (length msg) - off)
           (map accepted_whole (take j (chunks (drop (nat off) msg))) @ rest) k =
         concat (map write_step (take j (chunks (drop (nat off) msg)))) @
         uploadLoop msg (off + int (length (concat (take j (chunks (drop (nat off) msg))))))
           (int (length msg) - (off + int (length (concat (take j (chunks (drop (nat off) msg)))))))
           rest k"
  using assms
proof (induction j arbitrary: off)
  case 0
  then show ?case by simp
next
  case (Suc j)
  let ?d = "drop (nat off) msg"
  from Suc.prems(3) have ne: "?d \<noteq> []" by (auto simp: chunks_Nil)
  then have lt: "off < int (length msg)" using Suc.prems by simp
  let ?c = "take 65536 ?d"
  have cs: "chunks ?d = ?c # chunks (drop 65536 ?d)" using ne by (rule chunks_Cons)
  let ?off' = "off + int (length ?c)"
  have d': "drop (nat ?off') msg = drop 65536 ?d"
  proof -
    have "nat ?off' = min (length msg - nat off) 65536 + nat off"
      using Suc.prems(1) by (simp add: nat_add_distrib)
    then have "drop (nat ?off') msg = drop (min (length msg - nat off) 65536) ?d"
      by (simp add: add.commute)
    also have "\<dots> = drop 65536 ?d"
      by (cases "length msg - nat off \<le> 65536") (simp_all add: min_def)
    finally show ?thesis .
  qed
  have o1: "0 \<le> ?off'" using Suc.prems(1) by simp
  have o2: "?off' \<le> int (length msg)" using Suc.prems(1) lt by (auto simp: min_def)
  have j': "j \<le> length (chunks (drop (nat ?off') msg))"
    using Suc.prems(3) unfolding d' by (simp add: cs)
  have pos: "int (length msg) - off > 0" using lt by simp
  have step: "uploadLoop msg off (int (length msg) - off) (accepted_whole ?c # ws) k =
      write_step ?c @ uploadLoop msg ?off' (int (length msg) - ?off') ws k" for ws
    using pos slice_chunk [OF Suc.prems(1) lt]
    by (simp add: accepted_whole_def write_step_def Let_def diff_diff_eq del: length_take)
  have "uploadLoop msg off (int (length msg) - off)
           (map accepted_whole (take (Suc j) (chunks ?d)) @ rest) k =
        write_step ?c @ uploadLoop msg ?off' (int (length msg) - ?off')
           (map accepted_whole (take j (chunks (drop (nat ?off') msg))) @ rest) k"
    by (simp add: cs d' step del: uploadLoop.simps length_take)
  also note Suc.IH [OF o1 o2 j']
  finally show ?case
    by (simp add: cs d' add.assoc del: uploadLoop.simps length_take)
qed

lemma chunks_drop:
  "j \<le> length (chunks xs) \<Longrightarrow>
     chunks (drop (length (concat (take j (chunks xs)))) xs) = drop j (chunks xs)"
proof (induction j arbitrary: xs)
  case 0
  then show ?case by simp
next
  case (Suc j)
  then have ne: "xs \<noteq> []" by (auto simp: chunks_Nil)
  then have cs: "chunks xs = take 65536 xs # chunks (drop 65536 xs)" by (rule chunks_Cons)
  have d: "drop (min (length xs) 65536) xs = drop 65536 xs"
    by (cases "length xs \<le> 65536") (simp_all add: min_def)
  from Suc.prems have "j \<le> length (chunks (drop 65536 xs))" by (simp add: cs)
  from Suc.IH [OF this] show ?case
    by (simp add: cs d add.commute [of "min (length xs) 65536"] flip: drop_drop)
qed

lemma upload_error_step:
  assumes "0 \<le> off" "off < int (length msg)"
  shows "uploadLoop msg off (int (length msg) - off) ((n, Some e) # extra) k =
         [Ev (Write (take 65536 (drop (nat off) msg))), Ev (PrintStreamWriteError e)] @ k"
  using assms slice_chunk(1) [OF assms]
  by (simp add: Let_def)

lemma uploadTask_success:
  "uploadTask msg (map accepted_whole (chunks msg) @ extra) =
     Ev (SetWriteDeadline (30 * second)) # concat (map write_step (chunks msg)) @ [Ev Close, WgDone]"
  using uploadLoop_prefix [of 0 msg "length (chunks msg)" extra "[Ev Close, WgDone]"]
  by (simp add: uploadTask_def concat_chunks uploadLoop_done del: uploadLoop.simps)

lemma uploadTask_error:
  assumes "j < length (chunks msg)"
  shows "uploadTask msg (map accepted_whole (take j (chunks msg)) @ (n, Some e) # extra) =
     Ev (SetWriteDeadline (30 * second)) # concat (map write_step (take j (chunks msg))) @
     [Ev (Write (chunks msg ! j)), Ev (PrintStreamWriteError e), Ev Close, WgDone]"
proof -
  let ?m = "length (concat (take j (chunks msg)))"
  have dj: "chunks (drop ?m msg) = drop j (chunks msg)"
    using assms by (intro chunks_drop) simp
  with assms have ne: "drop ?m msg \<noteq> []" by (auto simp: chunks_Nil)
  then have lt: "int ?m < int (length msg)" by simp
  have "chunks (drop ?m msg) = take 65536 (drop ?m msg) # chunks (drop 65536 (drop ?m msg))"
    using ne by (rule chunks_Cons)
  with dj assms have c: "take 65536 (drop ?m msg) = chunks msg ! j"
    by (metis hd_drop_conv_nth list.sel(1))
  have "uploadLoop msg 0 (int (length msg) - 0)
           (map accepted_whole (take j (chunks (drop (nat 0) msg))) @ (n, Some e) # extra) [Ev Close, WgDone] =
         concat (map write_step (take j (chunks (drop (nat 0) msg)))) @
         uploadLoop msg (0 + int (length (concat (take j (chunks (drop (nat 0) msg))))))
           (int (length msg) - (0 + int (length (concat (take j (chunks (drop (nat 0) msg)))))))
           ((n, Some e) # extra) [Ev Close, WgDone]"
    using assms by (intro uploadLoop_prefix) simp_all
  then have "uploadLoop msg 0 (int (length msg)) (map accepted_whole (take j (chunks msg)) @ (n, Some e) # extra)
        [Ev Close, WgDone] =
      concat (map write_step (take j (chunks msg))) @
      uploadLoop msg (int ?m) (int (length msg) - int ?m) ((n, Some e) # extra) [Ev Close, WgDone]"
    by (simp del: uploadLoop.simps)
  also have "uploadLoop msg (int ?m) (int (length msg) - int ?m) ((n, Some e) # extra) [Ev Close, WgDone] =
      [Ev (Write (take 65536 (drop (nat (int ?m)) msg))), Ev (PrintStreamWriteError e)] @ [Ev Close, WgDone]"
    using lt by (intro upload_error_step) simp_all
  finally show ?thesis
    by (simp add: uploadTask_def c del: uploadLoop.simps)
qed

subsection \<open>The example runs\<close>

lemma example_tasks:
  "downloadTasks example_cfg example_env =
    [[Ev (AcceptStream 30000000000), Ev (SetReadDeadline 30000000000),
      Ev (Read 65536 3 None), Lock, LoadTotal, StoreTotal 3, Unlock,
      Ev (SetReadDeadline 30000000000), Ev (Read 65536 0 (Some EOF)), Lock,
      LoadTimes, StoreTimes 2000000000, Unlock, Ev Close, WgDone],
     [Ev (AcceptStream 30000000000), Ev (AcceptUniStream 30000000000),
      Ev (SetReadDeadline 30000000000), Ev (Read 65536 4 (Some EOF)), Lock,
      LoadTotal, StoreTotal 4, Unlock, Lock, LoadTimes, StoreTimes 4000000000,
      Unlock, WgDone]]"
proof -
  have u: "[0..<nat (numberStream example_cfg)] = [0, 1]"
    by (simp add: example_cfg_def upt_rec)
  have t0: "downloadTask example_cfg (example_env 0) =
     [Ev (AcceptStream 30000000000), Ev (SetReadDeadline 30000000000),
      Ev (Read 65536 3 None), Lock, LoadTotal, StoreTotal 3, Unlock,
      Ev (SetReadDeadline 30000000000), Ev (Read 65536 0 (Some EOF)), Lock,
      LoadTimes, StoreTimes 2000000000, Unlock, Ev Close, WgDone]"
    by (simp add: example_cfg_def example_env_def downloadTask_def
        second_def addTotal_def appendTimes_def)
  have t1: "downloadTask example_cfg (example_env (Suc 0)) =
     [Ev (AcceptStream 30000000000), Ev (AcceptUniStream 30000000000),
      Ev (SetReadDeadline 30000000000), Ev (Read 65536 4 (Some EOF)), Lock,
      LoadTotal, StoreTotal 4, Unlock, Lock, LoadTimes, StoreTimes 4000000000,
      Unlock, WgDone]"
    by (simp add: example_cfg_def example_env_def downloadTask_def
        second_def addTotal_def appendTimes_def)
  show ?thesis
    unfolding downloadTasks_def u by (simp add: t0 t1)
qed

lemma example_run:
  "\<exists>s. run example_sched (start (downloadTasks example_cfg example_env)) = Some s \<and>
       total_sh s = 7 \<and> times_sh s = [2000000000, 4000000000] \<and> w_sh s = 0 \<and> crashed s = None"
  unfolding example_tasks example_sched_def
  by (simp add: start_def spawn_def step_def exec_def)

lemma example_midrun:
  "\<exists>s. run [0, 1, 0, 0, 0, 0] (start (downloadTasks example_cfg example_env)) = Some s \<and>
       pc (tasks s ! 0) = StoreTotal 3 # tl (tl (tl (tl (tl (tl (downloadTasks example_cfg example_env ! 0)))))) \<and>
       length (tasks s) = 2"
  unfolding example_tasks
  by (simp add: start_def spawn_def step_def exec_def)

lemma counters_run:
  "\<exists>s. run [0, 0, 0, 0, 1, 1, 1, 0, 1, 1] (start (replicate 2 (addTotal 5 @ [WgDone]))) = Some s \<and>
       w_sh s = 0"
proof -
  have "replicate 2 (addTotal 5 @ [WgDone]) =
      [[Lock, LoadTotal, StoreTotal 5, Unlock, WgDone], [Lock, LoadTotal, StoreTotal 5, Unlock, WgDone]]"
    by (simp add: addTotal_def numeral_2_eq_2)
  then show ?thesis
    by (simp add: start_def spawn_def step_def exec_def)
qed

lemma mixed_tasks:
  "downloadTasks example_cfg (\<lambda>ix. if ix = 0 then example_env 0 else failing_slot) =
    [[Ev (AcceptStream 30000000000), Ev (SetReadDeadline 30000000000),
      Ev (Read 65536 3 None), Lock, LoadTotal, StoreTotal 3, Unlock,
      Ev (SetReadDeadline 30000000000), Ev (Read 65536 0 (Some EOF)), Lock,
      LoadTimes, StoreTimes 2000000000, Unlock, Ev Close, WgDone],
     [Ev (AcceptStream 30000000000), Ev (AcceptUniStream 30000000000),
      Ev (PrintStreamAcceptError (Error ''context deadline exceeded'' (Some True))
            (Error ''context deadline exceeded'' (Some True))),
      WgDone]]"
proof -
  have u: "[0..<nat (numberStream example_cfg)] = [0, Suc 0]"
    by (simp add: example_cfg_def upt_rec)
  have t0: "downloadTask example_cfg (example_env 0) =
     [Ev (AcceptStream 30000000000), Ev (SetReadDeadline 30000000000),
      Ev (Read 65536 3 None), Lock, LoadTotal, StoreTotal 3, Unlock,
      Ev (SetReadDeadline 30000000000), Ev (Read 65536 0 (Some EOF)), Lock,
      LoadTimes, StoreTimes 2000000000, Unlock, Ev Close, WgDone]"
    by (simp add: example_cfg_def example_env_def downloadTask_def
        second_def addTotal_def appendTimes_def)
  have t1: "downloadTask example_cfg failing_slot =
     [Ev (AcceptStream 30000000000), Ev (AcceptUniStream 30000000000),
      Ev (PrintStreamAcceptError (Error ''context deadline exceeded'' (Some True))
            (Error ''context deadline exceeded'' (Some True))),
      WgDone]"
    by (simp add: downloadTask_def failing_slot_def second_def)
  show ?thesis
    unfolding downloadTasks_def u by (simp add: t0 t1)
qed

lemma mixed_run:
  "\<exists>s. run [1, 0, 0, 0, 0, 1] (start (downloadTasks example_cfg
            (\<lambda>ix. if ix = 0 then example_env 0 else failing_slot))) = Some s \<and>
       mu_sh s \<and> holds_lock (tasks s ! 0) \<and>
       pc (tasks s ! 1) =
         [Ev (PrintStreamAcceptError (Error ''context deadline exceeded'' (Some True))
               (Error ''context deadline exceeded'' (Some True))), WgDone]"
  unfolding mixed_tasks
  by (simp add: start_def spawn_def step_def exec_def holds_lock_def)

lemma failing_tasks:
  "downloadTasks (example_cfg\<lparr>numberStream := 1\<rparr>) (\<lambda>ix. failing_slot) =
     [[Ev (AcceptStream 30000000000), Ev (AcceptUniStream 30000000000),
       Ev (PrintStreamAcceptError (Error ''context deadline exceeded'' (Some True))
             (Error ''context deadline exceeded'' (Some True))),
       WgDone]]"
proof -
  have u: "[0..<nat (numberStream (example_cfg\<lparr>numberStream := 1\<rparr>))] = [0]"
    by (simp add: example_cfg_def)
  show ?thesis
    unfolding downloadTasks_def u
    by (simp add: downloadTask_def failing_slot_def second_def)
qed

lemma failing_run:
  "\<exists>s. run [0, 0, 0, 0] (start (downloadTasks (example_cfg\<lparr>numberStream := 1\<rparr>) (\<lambda>ix. failing_slot))) =
          Some s \<and> total_sh s = 0 \<and> times_sh s = [] \<and> w_sh s = 0"
  unfolding failing_tasks
  by (simp add: start_def spawn_def step_def exec_def)

lemma chunks_example:
  "chunks (replicate 65537 (0::byte)) = [replicate 65536 0, [0]]"
proof -
  have one: "chunks [0::byte] = [[0]]"
    by (simp add: chunks_Cons chunks_Nil)
  have d: "drop 65536 (replicate 65537 (0::byte)) = [0]" by simp
  have t: "take 65536 (replicate 65537 (0::byte)) = replicate 65536 0" by simp
  have "replicate 65537 (0::byte) \<noteq> []" by simp
  then have "chunks (replicate 65537 (0::byte)) =
      take 65536 (replicate 65537 0) # chunks (drop 65536 (replicate 65537 0))"
    by (rule chunks_Cons)
  then show ?thesis by (simp only: d t one)
qed

lemma upload_example_tasks:
  "uploadTasks (example_cfg\<lparr>dataSize := 2\<rparr>)
     (\<lambda>i. if i = 0 then Inr [(2, None)]
          else Inr [(0, Some (Error ''deadline exceeded'' (Some True)))]) =
   Inr [[Ev (SetWriteDeadline 30000000000), Ev (Write [143, 226]),
         Ev (SetWriteDeadline 30000000000), Ev Close, WgDone],
        [Ev (SetWriteDeadline 30000000000), Ev (Write [143, 226]),
         Ev (PrintStreamWriteError (Error ''deadline exceeded'' (Some True))), Ev Close, WgDone]]"
proof -
  have "generatePRData 2 = Inr [143, 226]"
    by code_simp
  then have g: "generatePRData (dataSize (example_cfg\<lparr>dataSize := 2\<rparr>)) = Inr [143, 226]"
    by simp
  have u: "[0..<nat (numberStream (example_cfg\<lparr>dataSize := 2\<rparr>))] = [0, Suc 0]"
    by (simp add: example_cfg_def upt_rec)
  show ?thesis
    unfolding uploadTasks_def g u
    by (simp add: uploadTask_def slice_expr_def second_def)
qed

section \<open>The claims\<close>



text \<open>
  Claim C2. The payload generator is a function of its size argument alone (equal sizes
  give equal byte sequences); size 0 gives the empty sequence; and for every size
  \<open>n \<ge> 1\<close> it returns \<open>n\<close> bytes, byte \<open>i\<close> being the low-order byte of the
  \<open>(i+1)\<close>-th value of the Park--Miller sequence seeded at 1 (computed without any
  machine width), so that byte 0 is the low-order byte of 48271.
\<close>

theorem generatePRData_park_miller:
  "(m = n \<longrightarrow> generatePRData m = generatePRData n) \<and>
   generatePRData 0 = Inr [] \<and>
   (1 \<le> n \<longrightarrow>
      (\<exists>bs. generatePRData n = Inr bs \<and> length bs = nat n \<and>
         (\<forall>i < nat n. bs ! i = low_byte (park_miller (Suc i))) \<and>
         bs ! 0 = low_byte 48271))"
proof (intro conjI impI)
  assume "m = n"
  then show "generatePRData m = generatePRData n" by simp
next
  show "generatePRData 0 = Inr []"
    using generatePRData_refines [of 0] by (simp add: pm_bytes_def)
next
  assume n: "1 \<le> n"
  then have r: "generatePRData n = Inr (pm_bytes (nat n))"
    by (simp add: generatePRData_refines)
  have "pm_bytes (nat n) ! 0 = low_byte 48271"
    using n by (simp add: pm_bytes_def)
  with r show "\<exists>bs. generatePRData n = Inr bs \<and> length bs = nat n \<and>
         (\<forall>i < nat n. bs ! i = low_byte (park_miller (Suc i))) \<and>
         bs ! 0 = low_byte 48271"
    by (simp add: pm_bytes_length pm_bytes_nth del: park_miller.simps)
qed

theorem generatePRData_park_miller_witness:
  "(1::int) \<le> 3 \<and> generatePRData 3 = generatePRData 3 \<and>
   (\<exists>bs. generatePRData 3 = Inr bs \<and> length bs = 3 \<and>
      bs ! 2 = low_byte (park_miller (Suc 2)) \<and> bs ! 0 = 143)"
proof -
  have h: "(1::int) \<le> 3" by simp
  from generatePRData_park_miller [of 3 3] h
  obtain bs where bs: "generatePRData 3 = Inr bs" "length bs = nat 3"
      "\<forall>i < nat 3. bs ! i = low_byte (park_miller (Suc i))" "bs ! 0 = low_byte 48271"
    by blast
  from bs(3) have "bs ! 2 = low_byte (park_miller (Suc 2))"
    by (simp del: park_miller.simps)
  moreover have "low_byte 48271 = 143" by (simp add: low_byte_def)
  ultimately show ?thesis using bs h by (simp del: park_miller.simps)
qed

text \<open>
  Claim C3. Every download task begins by accepting a duplex stream under a 30-second
  timeout; whatever error that accept returns (a timeout included), the task next accepts
  a one-way stream under a 30-second timeout; when that fails too, the task prints both
  errors and ends: it adds no bytes and no duration entry. In every interleaving of the
  download phase such a task never holds the mutex, each of its remaining steps can
  always be taken, and its steps leave the shared total, the durations, the mutex and
  every other task untouched, without crashing the program.
\<close>

theorem failed_accept_is_isolated:
  "(\<exists>rest. downloadTask cfg e' = Ev (AcceptStream (30 * second)) # rest \<and>
      (\<forall>err'. bidiAccept e' = Inl err' \<longrightarrow>
         (\<exists>rest'. rest = Ev (AcceptUniStream (30 * second)) # rest'))) \<and>
   (bidiAccept e = Inl err \<and> uniAccept e = Inl uerr \<longrightarrow>
      downloadTask cfg e =
        [Ev (AcceptStream (30 * second)), Ev (AcceptUniStream (30 * second)),
         Ev (PrintStreamAcceptError err uerr), WgDone] \<and>
      incs (downloadTask cfg e) = 0 \<and> durs (downloadTask cfg e) = []) \<and>
   (run sched (start (downloadTasks cfg env)) = Some s \<and> ix < nat (numberStream cfg) \<and>
    bidiAccept (env ix) = Inl err \<and> uniAccept (env ix) = Inl uerr \<longrightarrow>
      \<not> holds_lock (tasks s ! ix) \<and>
      incs (hist (tasks s ! ix)) = 0 \<and> durs (hist (tasks s ! ix)) = [] \<and>
      (pc (tasks s ! ix) = [] \<or>
       (\<exists>s'. step ix s = Some s' \<and> total_sh s' = total_sh s \<and> times_sh s' = times_sh s \<and>
           mu_sh s' = mu_sh s \<and> crashed s' = None \<and>
           (\<forall>j. j \<noteq> ix \<longrightarrow> tasks s' ! j = tasks s ! j) \<and>
           (\<forall>j. j \<noteq> ix \<longrightarrow> (step j s' = None) = (step j s = None)))))"
proof (intro conjI impI)
  show "\<exists>rest. downloadTask cfg e' = Ev (AcceptStream (30 * second)) # rest \<and>
      (\<forall>err'. bidiAccept e' = Inl err' \<longrightarrow>
         (\<exists>rest'. rest = Ev (AcceptUniStream (30 * second)) # rest'))"
    by (auto simp: downloadTask_def)
next
  assume a: "bidiAccept e = Inl err \<and> uniAccept e = Inl uerr"
  then show "downloadTask cfg e =
        [Ev (AcceptStream (30 * second)), Ev (AcceptUniStream (30 * second)),
         Ev (PrintStreamAcceptError err uerr), WgDone]"
    by (simp add: failed_task)
  from a show "incs (downloadTask cfg e) = 0" "durs (downloadTask cfg e) = []"
    by (simp_all add: failed_task)
next
  assume a: "run sched (start (downloadTasks cfg env)) = Some s \<and> ix < nat (numberStream cfg) \<and>
    bidiAccept (env ix) = Inl err \<and> uniAccept (env ix) = Inl uerr"
  then have r: "run sched (start (downloadTasks cfg env)) = Some s" by simp
  from r have v: "inv_all s" by (rule download_inv)
  note dl = download_length [OF r]
  from a dl have j: "ix < length (tasks s)" by simp
  let ?p = "[Ev (AcceptStream (30 * second)), Ev (AcceptUniStream (30 * second)),
      Ev (PrintStreamAcceptError err uerr), WgDone]"
  from a have p: "downloadTasks cfg env ! ix = ?p"
    by (simp add: downloadTasks_def failed_task)
  with dl(2) j have hp: "hist (tasks s ! ix) @ pc (tasks s ! ix) = ?p"
    by (auto simp: code_of_def dest: arg_cong [where f = "\<lambda>l. l ! ix"])
  have "incs ?p = 0" "durs ?p = []" by simp_all
  with hp have "incs (hist (tasks s ! ix) @ pc (tasks s ! ix)) = 0"
    "durs (hist (tasks s ! ix) @ pc (tasks s ! ix)) = []"
    by simp_all
  moreover have "0 \<le> incs (hist (tasks s ! ix))" "0 \<le> incs (pc (tasks s ! ix))"
  proof -
    have "\<forall>n. StoreTotal n \<notin> set xs \<Longrightarrow> incs xs = 0" for xs
      by (induction xs rule: incs.induct) auto
    moreover have "\<forall>n. StoreTotal n \<notin> set (hist (tasks s ! ix))" "\<forall>n. StoreTotal n \<notin> set (pc (tasks s ! ix))"
      using arg_cong [OF hp, of set] by auto
    ultimately show "0 \<le> incs (hist (tasks s ! ix))" "0 \<le> incs (pc (tasks s ! ix))" by simp_all
  qed
  ultimately show "incs (hist (tasks s ! ix)) = 0" "durs (hist (tasks s ! ix)) = []"
    by (simp_all add: incs_append durs_append)
  have heads: "(\<exists>e. a = Ev e) \<or> a = WgDone" if "pc (tasks s ! ix) = a # r" for a r
  proof -
    from code_suffix [OF dl(2) j that] p have "a \<in> set ?p" by simp
    then show ?thesis by auto
  qed
  show "\<not> holds_lock (tasks s ! ix)"
  proof (cases "pc (tasks s ! ix)")
    case Nil
    then show ?thesis by (simp add: holds_lock_def)
  next
    case (Cons a r)
    with heads [OF Cons] show ?thesis by (auto simp: holds_lock_def)
  qed
  show "pc (tasks s ! ix) = [] \<or>
       (\<exists>s'. step ix s = Some s' \<and> total_sh s' = total_sh s \<and> times_sh s' = times_sh s \<and>
           mu_sh s' = mu_sh s \<and> crashed s' = None \<and>
           (\<forall>j. j \<noteq> ix \<longrightarrow> tasks s' ! j = tasks s ! j) \<and>
           (\<forall>j. j \<noteq> ix \<longrightarrow> (step j s' = None) = (step j s = None)))"
  proof (cases "pc (tasks s ! ix)")
    case Nil
    then show ?thesis by simp
  next
    case (Cons a r)
    note hd = heads [OF Cons]
    from v have c: "crashed s = None" and w: "inv_wg s" and d: "inv_disc s"
      by (simp_all add: inv_all_def)
    have pos: "a = WgDone \<longrightarrow> 0 < w_sh s"
    proof
      assume "a = WgDone"
      with w j Cons have "dones (hist (tasks s ! ix)) = 0" by (auto simp: inv_wg_def)
      with w j have "(\<Sum>t \<leftarrow> tasks s. int (dones (hist t))) < int (length (tasks s))"
        by (intro sum_list_lt_length [where f = "\<lambda>t. dones (hist t)" and i = ix])
          (auto simp: inv_wg_def)
      with w show "0 < w_sh s" by (simp add: inv_wg_def)
    qed
    from step_local_enabled [OF c j Cons] hd pos obtain s' where s': "step ix s = Some s'"
      by blast
    from step_inv [OF s' v] have c': "crashed s' = None" by (simp add: inv_all_def)
    note sh = step_local_shared [OF s' Cons hd] and fr = step_frame [OF s']
    have en: "\<forall>j. j \<noteq> ix \<longrightarrow> (step j s' = None) = (step j s = None)"
    proof (intro allI impI)
      fix j assume "j \<noteq> ix"
      with fr have "tasks s' ! j = tasks s ! j" by simp
      with c c' fr(2) sh show "(step j s' = None) = (step j s = None)"
        by (intro step_enabled_cong) simp_all
    qed
    from s' sh fr(1) c' en show ?thesis by blast
  qed
qed

theorem failed_accept_is_isolated_witness:
  "bidiAccept failing_slot = Inl (Error ''context deadline exceeded'' (Some True)) \<and>
   uniAccept failing_slot = Inl (Error ''context deadline exceeded'' (Some True)) \<and>
   downloadTask example_cfg failing_slot =
     [Ev (AcceptStream (30 * second)), Ev (AcceptUniStream (30 * second)),
      Ev (PrintStreamAcceptError (Error ''context deadline exceeded'' (Some True))
            (Error ''context deadline exceeded'' (Some True))),
      WgDone] \<and>
   incs (downloadTask example_cfg failing_slot) = 0 \<and>
   durs (downloadTask example_cfg failing_slot) = [] \<and>
   (\<exists>s. run [1, 0, 0, 0, 0, 1] (start (downloadTasks example_cfg
            (\<lambda>ix. if ix = 0 then example_env 0 else failing_slot))) = Some s \<and>
      (1::nat) < nat (numberStream example_cfg) \<and>
      mu_sh s \<and> holds_lock (tasks s ! 0) \<and> \<not> holds_lock (tasks s ! 1) \<and>
      pc (tasks s ! 1) \<noteq> [] \<and>
      (\<exists>s'. step 1 s = Some s' \<and> total_sh s' = total_sh s \<and> times_sh s' = times_sh s \<and>
          mu_sh s' = mu_sh s \<and> crashed s' = None \<and> tasks s' ! 0 = tasks s ! 0 \<and>
          (step 0 s' = None) = (step 0 s = None)))"
proof -
  let ?err = "Error ''context deadline exceeded'' (Some True)"
  let ?env = "\<lambda>ix::nat. if ix = 0 then example_env 0 else failing_slot"
  have b: "bidiAccept failing_slot = Inl ?err" and u: "uniAccept failing_slot = Inl ?err"
    by (simp_all add: failing_slot_def)
  have n: "(1::nat) < nat (numberStream example_cfg)" by (simp add: example_cfg_def)
  from mixed_run obtain s where s:
    "run [1, 0, 0, 0, 0, 1] (start (downloadTasks example_cfg ?env)) = Some s"
    "mu_sh s" "holds_lock (tasks s ! 0)"
    "pc (tasks s ! 1) = [Ev (PrintStreamAcceptError ?err ?err), WgDone]"
    by blast
  note w = failed_accept_is_isolated [where cfg = example_cfg and e = failing_slot
      and e' = failing_slot and err = ?err and uerr = ?err and sched = "[1, 0, 0, 0, 0, 1]"
      and env = ?env and s = s and ix = 1]
  from w b u have t: "downloadTask example_cfg failing_slot =
        [Ev (AcceptStream (30 * second)), Ev (AcceptUniStream (30 * second)),
         Ev (PrintStreamAcceptError ?err ?err), WgDone] \<and>
      incs (downloadTask example_cfg failing_slot) = 0 \<and> durs (downloadTask example_cfg failing_slot) = []"
    by blast
  from w s(1) n b u have c: "\<not> holds_lock (tasks s ! 1) \<and>
      (pc (tasks s ! 1) = [] \<or>
       (\<exists>s'. step 1 s = Some s' \<and> total_sh s' = total_sh s \<and> times_sh s' = times_sh s \<and>
           mu_sh s' = mu_sh s \<and> crashed s' = None \<and>
           (\<forall>j. j \<noteq> 1 \<longrightarrow> tasks s' ! j = tasks s ! j) \<and>
           (\<forall>j. j \<noteq> 1 \<longrightarrow> (step j s' = None) = (step j s = None))))"
    by simp
  with s(4) have "\<exists>s'. step 1 s = Some s' \<and> total_sh s' = total_sh s \<and> times_sh s' = times_sh s \<and>
          mu_sh s' = mu_sh s \<and> crashed s' = None \<and> tasks s' ! 0 = tasks s ! 0 \<and>
          (step 0 s' = None) = (step 0 s = None)"
    by auto
  with b u t n s c show ?thesis by auto
qed

text \<open>
  Claim C4. When the duration collection is empty or the byte total is zero, the report
  consists of the single line ``No data received.'': it performs no division at all
  (neither the integer division for the average, which would panic on an empty
  collection, nor a floating-point one) and prints no speed. The report produced once
  the download barrier is passed behaves so.
\<close>

theorem no_data_guard:
  "(tms = [] \<or> tot = 0 \<longrightarrow> report sz tot tms = ([], Inr [NoDataReceived])) \<and>
   go_div (foldl (\<lambda>acc d. wrap 64 (acc + d)) 0 []) (int (length ([] :: duration list))) =
     Inl IntegerDivideByZero \<and>
   (run sched (start (downloadTasks cfg env)) = Some s \<and> w_sh s = 0 \<and>
    (times_sh s = [] \<or> total_sh s = 0) \<longrightarrow>
      downloadReport sz cfg env sched = Some ([], Inr [NoDataReceived]))"
proof (intro conjI impI)
  assume "tms = [] \<or> tot = 0"
  then show "report sz tot tms = ([], Inr [NoDataReceived])"
    by (auto simp: report_def)
next
  show "go_div (foldl (\<lambda>acc d. wrap 64 (acc + d)) 0 []) (int (length ([] :: duration list))) =
     Inl IntegerDivideByZero"
    by (simp add: go_div_def)
next
  assume a: "run sched (start (downloadTasks cfg env)) = Some s \<and> w_sh s = 0 \<and>
    (times_sh s = [] \<or> total_sh s = 0)"
  then have "downloadReport sz cfg env sched =
      Some (report sz (wrap (width sz) (total_sh s)) (times_sh s))"
    by (simp add: report_at_barrier)
  with a show "downloadReport sz cfg env sched = Some ([], Inr [NoDataReceived])"
    by (auto simp: report_def wrap_zero)
qed

theorem no_data_guard_witness:
  "report Int64 7 [] = ([], Inr [NoDataReceived]) \<and>
   report Int64 0 [second] = ([], Inr [NoDataReceived]) \<and>
   (\<exists>s. run [0, 0, 0, 0]
          (start (downloadTasks (example_cfg\<lparr>numberStream := 1\<rparr>) (\<lambda>ix. failing_slot))) = Some s \<and>
        w_sh s = 0 \<and> times_sh s = [] \<and>
        downloadReport Int64 (example_cfg\<lparr>numberStream := 1\<rparr>) (\<lambda>ix. failing_slot) [0, 0, 0, 0] =
          Some ([], Inr [NoDataReceived]))"
proof -
  from failing_run obtain s where s:
    "run [0, 0, 0, 0] (start (downloadTasks (example_cfg\<lparr>numberStream := 1\<rparr>) (\<lambda>ix. failing_slot))) = Some s"
    "total_sh s = 0" "times_sh s = []" "w_sh s = 0"
    by blast
  from no_data_guard [where tms = "[]" and tot = 7 and sz = Int64]
  have a: "report Int64 7 [] = ([], Inr [NoDataReceived])"
    by simp
  from no_data_guard [where tms = "[second]" and tot = 0 and sz = Int64]
  have b: "report Int64 0 [second] = ([], Inr [NoDataReceived])"
    by simp
  from no_data_guard [where tms = "[]" and tot = 0 and sz = Int64 and sched = "[0, 0, 0, 0]"
      and cfg = "example_cfg\<lparr>numberStream := 1\<rparr>" and env = "\<lambda>ix. failing_slot" and s = s] s
  have "downloadReport Int64 (example_cfg\<lparr>numberStream := 1\<rparr>) (\<lambda>ix. failing_slot) [0, 0, 0, 0] =
          Some ([], Inr [NoDataReceived])"
    by simp
  with a b s show ?thesis by blast
qed

text \<open>
  Claim C5 (as amended). A slot records an elapsed-duration entry exactly when a stream
  (duplex or one-way) was accepted for it and its read loop exited, on end-of-stream or
  on a non-timeout error; it then records exactly one entry, the elapsed time. This
  requires that at least one \<^verbatim>\<open>Read\<close> call returned, but not that any byte was received.
  A slot whose two accepts fail contributes no entry, and once the barrier is passed the
  collection holds one entry per slot that accepted a stream.
\<close>

theorem duration_recorded_iff_loop_exited:
  "(records_duration cfg e \<longleftrightarrow> (\<exists>rs. accepted e = Some rs \<and> exits rs)) \<and>
   durs (downloadTask cfg e) = (if records_duration cfg e then [elapsed e] else []) \<and>
   (records_duration cfg e \<longrightarrow> yielded_return e) \<and>
   (bidiAccept e = Inl err \<and> uniAccept e = Inl uerr \<longrightarrow> \<not> records_duration cfg e) \<and>
   (run sched (start (downloadTasks cfg env)) = Some s \<and> w_sh s = 0 \<longrightarrow>
      int (length (times_sh s)) =
        (\<Sum>ix \<leftarrow> [0..<nat (numberStream cfg)]. if accepted (env ix) = None then 0 else 1))"
proof (intro conjI impI)
  show "records_duration cfg e \<longleftrightarrow> (\<exists>rs. accepted e = Some rs \<and> exits rs)"
    by (rule records_duration_iff)
  show "durs (downloadTask cfg e) = (if records_duration cfg e then [elapsed e] else [])"
    by (cases "accepted e") (simp_all add: records_duration_def downloadTask_durs)
next
  assume "records_duration cfg e"
  then obtain rs where "accepted e = Some rs" "exits rs"
    by (auto simp: records_duration_iff)
  then show "yielded_return e"
    by (auto simp: yielded_return_def consumed_nonempty dest: exits_nonempty)
next
  assume "bidiAccept e = Inl err \<and> uniAccept e = Inl uerr"
  then have "accepted e = None" by (simp add: accepted_def)
  then show "\<not> records_duration cfg e" by (simp add: records_duration_iff)
next
  assume "run sched (start (downloadTasks cfg env)) = Some s \<and> w_sh s = 0"
  then show "int (length (times_sh s)) =
        (\<Sum>ix \<leftarrow> [0..<nat (numberStream cfg)]. if accepted (env ix) = None then 0 else 1)"
    using barrier_durations_count [of sched cfg env s] by simp
qed

text \<open>
  Claim C5 as stated fails in both directions. A duplex stream whose first read reports
  the end of the stream with no bytes records a duration although no read yielded data.
  A stream that delivers 5 bytes and then only times out yields reads, in either sense,
  and records no duration, since its loop never exits.
\<close>

theorem duration_without_data_read:
  "records_duration example_cfg
     \<lparr>bidiAccept = Inr [(0, Some EOF)], uniAccept = Inl EOF, elapsed = second\<rparr> \<and>
   \<not> yielded_data \<lparr>bidiAccept = Inr [(0, Some EOF)], uniAccept = Inl EOF, elapsed = second\<rparr> \<and>
   durs (downloadTask example_cfg
     \<lparr>bidiAccept = Inr [(0, Some EOF)], uniAccept = Inl EOF, elapsed = second\<rparr>) = [second] \<and>
   yielded_return
     \<lparr>bidiAccept = Inr [(5, None), (0, Some (Error ''timeout'' (Some True)))], uniAccept = Inl EOF,
        elapsed = second\<rparr> \<and>
   yielded_data
     \<lparr>bidiAccept = Inr [(5, None), (0, Some (Error ''timeout'' (Some True)))], uniAccept = Inl EOF,
        elapsed = second\<rparr> \<and>
   \<not> records_duration example_cfg
     \<lparr>bidiAccept = Inr [(5, None), (0, Some (Error ''timeout'' (Some True)))], uniAccept = Inl EOF,
        elapsed = second\<rparr>"
  by (simp add: records_duration_def downloadTask_durs accepted_def exits_def yielded_data_def
      yielded_return_def isTimeout_def)

theorem duration_recorded_iff_loop_exited_witness:
  "records_duration example_cfg (example_env 0) \<and>
   yielded_return (example_env 0) \<and>
   durs (downloadTask example_cfg (example_env 0)) = [2 * second] \<and>
   bidiAccept failing_slot = Inl (Error ''context deadline exceeded'' (Some True)) \<and>
   uniAccept failing_slot = Inl (Error ''context deadline exceeded'' (Some True)) \<and>
   \<not> records_duration example_cfg failing_slot \<and>
   (\<exists>s. run example_sched (start (downloadTasks example_cfg example_env)) = Some s \<and>
        w_sh s = 0 \<and> int (length (times_sh s)) = 2)"
proof -
  let ?err = "Error ''context deadline exceeded'' (Some True)"
  have b: "bidiAccept failing_slot = Inl ?err \<and> uniAccept failing_slot = Inl ?err"
    by (simp add: failing_slot_def)
  from example_run obtain s where s: "run example_sched (start (downloadTasks example_cfg example_env)) = Some s"
    "w_sh s = 0" "times_sh s = [2000000000, 4000000000]"
    by blast
  note w0 = duration_recorded_iff_loop_exited [where cfg = example_cfg and e = "example_env 0"
      and err = ?err and uerr = ?err and sched = example_sched and env = example_env and s = s]
  note w1 = duration_recorded_iff_loop_exited [where cfg = example_cfg and e = failing_slot
      and err = ?err and uerr = ?err and sched = example_sched and env = example_env and s = s]
  have "accepted (example_env 0) = Some [(3, None), (0, Some EOF)]"
    by (simp add: accepted_def example_env_def)
  moreover have "exits [(3, None), (0, Some EOF)]" by (simp add: exits_def)
  ultimately have r: "records_duration example_cfg (example_env 0)" using w0 by blast
  with w0 have y: "yielded_return (example_env 0)"
    and d: "durs (downloadTask example_cfg (example_env 0)) = [elapsed (example_env 0)]"
    by simp_all
  from w1 b have f: "\<not> records_duration example_cfg failing_slot" by blast
  from w0 s have "int (length (times_sh s)) =
      (\<Sum>ix \<leftarrow> [0..<nat (numberStream example_cfg)]. if accepted (example_env ix) = None then 0 else 1)"
    by blast
  with s have "int (length (times_sh s)) = 2" by simp
  with r y d b f s show ?thesis by (auto simp: example_env_def)
qed

text \<open>
  Claim C6 (as amended). In both read loops a read that fails with a timeout error never
  ends the loop: after any number of such reads in a row the loop goes on with its next
  iteration. That iteration begins by re-arming the read deadline on a duplex stream, and
  on a one-way stream if the stream has the method \<^verbatim>\<open>SetReadDeadline\<close>; otherwise it
  begins with the read itself. The loop is left only after a read that reports the end of
  the stream or an error that is not a timeout; if no such read comes, the task never
  gets past the loop.
\<close>

theorem timeouts_tolerated:
  assumes "\<forall>r \<in> set pre. tolerated r"
  shows "readLoopBidi to (pre @ rs) k = concat (map (iterBidi to) pre) @ readLoopBidi to rs k \<and>
         readLoopUni ok to (pre @ rs) k = concat (map (iterUni ok to) pre) @ readLoopUni ok to rs k \<and>
         (\<exists>rest. readLoopBidi to rs k = Ev (SetReadDeadline to) # rest) \<and>
         (\<exists>rest. readLoopUni ok to rs k = (if ok then [Ev (SetReadDeadline to)] else []) @ rest \<and>
            (\<exists>n rerr. hd rest = Ev (Read (64 * 1024) n rerr) \<or> hd rest = Blocked)) \<and>
         (terminal r \<longrightarrow>
            readLoopBidi to (pre @ r # rs) k = concat (map (iterBidi to) pre) @ iterBidi to r @ k \<and>
            readLoopUni ok to (pre @ r # rs) k = concat (map (iterUni ok to) pre) @ iterUni ok to r @ k) \<and>
         ((\<forall>r \<in> set rs. \<not> terminal r) \<longrightarrow>
            readLoopBidi to rs k = concat (map (iterBidi to) rs) @ [Ev (SetReadDeadline to), Blocked] \<and>
            readLoopUni ok to rs k =
              concat (map (iterUni ok to) rs) @ (if ok then [Ev (SetReadDeadline to)] else []) @ [Blocked])"
proof -
  from assms have nt: "\<forall>r \<in> set pre. \<not> terminal r"
    by (auto dest: tolerated_not_terminal)
  have b: "map (iterBidi to) xs = map (iterUni True to) xs" for xs
    by (simp add: iterBidi_Uni)
  have 1: "readLoopUni ok' to (pre @ rs') k = concat (map (iterUni ok' to) pre) @ readLoopUni ok' to rs' k"
    for ok' rs'
    using nt by (rule readLoopUni_continue)
  have 2: "\<exists>rest. readLoopBidi to rs k = Ev (SetReadDeadline to) # rest"
    by (cases rs) auto
  have 3: "\<exists>rest. readLoopUni ok to rs k = (if ok then [Ev (SetReadDeadline to)] else []) @ rest \<and>
            (\<exists>n rerr. hd rest = Ev (Read (64 * 1024) n rerr) \<or> hd rest = Blocked)"
    using readLoopUni_head [of ok to rs k] by (simp add: armUni_def)
  have 4: "readLoopUni ok' to (pre @ r # rs) k = concat (map (iterUni ok' to) pre) @ iterUni ok' to r @ k"
    if "terminal r" for ok'
    using that by (simp only: 1 readLoopUni_exit)
  have 5: "readLoopUni ok' to rs k = concat (map (iterUni ok' to) rs) @ armUni ok' to @ [Blocked]"
    if "\<forall>r \<in> set rs. \<not> terminal r" for ok'
    using that by (rule readLoopUni_stuck)
  show ?thesis
    using 1 [of True rs] 1 [of ok rs] 2 3 4 [of True] 4 [of ok] 5 [of True] 5 [of ok]
    by (simp add: readLoopBidi_Uni b iterBidi_Uni armUni_def del: iterUni.simps iterBidi.simps)
qed

text \<open>
  Claim C6 as stated fails on a one-way stream without the method \<^verbatim>\<open>SetReadDeadline\<close>:
  after a read that times out the loop reads again, and no deadline is armed at all.
\<close>

theorem uni_deadline_not_rearmed:
  "readLoopUni False (30 * second)
     [(0, Some (Error ''timeout'' (Some True))), (0, Some EOF)] [WgDone] =
   [Ev (Read 65536 0 (Some (Error ''timeout'' (Some True)))), Ev (Read 65536 0 (Some EOF)), WgDone] \<and>
   tolerated (0, Some (Error ''timeout'' (Some True))) \<and>
   Ev (SetReadDeadline (30 * second)) \<notin>
     set (readLoopUni False (30 * second)
       [(0, Some (Error ''timeout'' (Some True))), (0, Some EOF)] [WgDone])"
  by (simp add: tolerated_def isTimeout_def)

theorem timeouts_tolerated_witness:
  "tolerated (0, Some (Error ''timeout'' (Some True))) \<and>
   tolerated (5, Some (Error ''i/o timeout'' (Some True))) \<and>
   terminal (0, Some EOF) \<and> \<not> terminal (7, None) \<and>
   readLoopBidi (30 * second)
     ([(0, Some (Error ''timeout'' (Some True))), (5, Some (Error ''i/o timeout'' (Some True)))] @
      (0, Some EOF) # [(7, None)]) [WgDone] =
     [Ev (SetReadDeadline 30000000000), Ev (Read 65536 0 (Some (Error ''timeout'' (Some True)))),
      Ev (SetReadDeadline 30000000000), Ev (Read 65536 5 (Some (Error ''i/o timeout'' (Some True)))),
      Lock, LoadTotal, StoreTotal 5, Unlock,
      Ev (SetReadDeadline 30000000000), Ev (Read 65536 0 (Some EOF)), WgDone] \<and>
   readLoopUni False (30 * second)
     ([(0, Some (Error ''timeout'' (Some True))), (5, Some (Error ''i/o timeout'' (Some True)))] @
      (0, Some EOF) # [(7, None)]) [WgDone] =
     [Ev (Read 65536 0 (Some (Error ''timeout'' (Some True)))),
      Ev (Read 65536 5 (Some (Error ''i/o timeout'' (Some True)))),
      Lock, LoadTotal, StoreTotal 5, Unlock,
      Ev (Read 65536 0 (Some EOF)), WgDone] \<and>
   readLoopBidi (30 * second) [(7, None)] [WgDone] =
     [Ev (SetReadDeadline 30000000000), Ev (Read 65536 7 None), Lock, LoadTotal, StoreTotal 7, Unlock,
      Ev (SetReadDeadline 30000000000), Blocked]"
proof -
  let ?t1 = "(0::int, Some (Error ''timeout'' (Some True)))"
  let ?t2 = "(5::int, Some (Error ''i/o timeout'' (Some True)))"
  have h: "\<forall>r \<in> set [?t1, ?t2]. tolerated r"
    by (simp add: tolerated_def isTimeout_def)
  have t: "terminal (0, Some EOF)" and n: "\<forall>r \<in> set [(7::int, None :: error option)]. \<not> terminal r"
    by simp_all
  note w = timeouts_tolerated [OF h, of "30 * second" "[(7, None)]" "[WgDone]" False "(0, Some EOF)"]
  from w t have a: "readLoopBidi (30 * second) ([?t1, ?t2] @ (0, Some EOF) # [(7, None)]) [WgDone] =
      concat (map (iterBidi (30 * second)) [?t1, ?t2]) @ iterBidi (30 * second) (0, Some EOF) @ [WgDone]"
    and b: "readLoopUni False (30 * second) ([?t1, ?t2] @ (0, Some EOF) # [(7, None)]) [WgDone] =
      concat (map (iterUni False (30 * second)) [?t1, ?t2]) @ iterUni False (30 * second) (0, Some EOF) @ [WgDone]"
    by blast+
  from w n have c: "readLoopBidi (30 * second) [(7, None)] [WgDone] =
      concat (map (iterBidi (30 * second)) [(7, None)]) @ [Ev (SetReadDeadline (30 * second)), Blocked]"
    by blast
  show ?thesis
    unfolding a b c using h t
    by (simp add: second_def armUni_def addTotal_def)
qed

text \<open>
  Claim C7. Two runs that differ only in the value of the unidirectional-mode toggle
  behave identically in the download phase: every task performs the same actions, every
  interleaving reaches the same state, and the same report is produced. Whatever the
  toggle, each task attempts the duplex accept first, and a one-way accept happens only
  as its second action, after the duplex accept has failed.
\<close>

theorem downloadUni_not_consulted:
  "downloadTask (cfg\<lparr>downloadUni := b\<rparr>) e = downloadTask cfg e \<and>
   downloadTasks (cfg\<lparr>downloadUni := b\<rparr>) env = downloadTasks cfg env \<and>
   run sched (start (downloadTasks (cfg\<lparr>downloadUni := b\<rparr>) env)) =
     run sched (start (downloadTasks cfg env)) \<and>
   downloadReport sz (cfg\<lparr>downloadUni := b\<rparr>) env sched = downloadReport sz cfg env sched \<and>
   hd (downloadTask cfg e) = Ev (AcceptStream (30 * second)) \<and>
   (\<forall>i d. i < length (downloadTask cfg e) \<and> downloadTask cfg e ! i = Ev (AcceptUniStream d) \<longrightarrow>
      i = 1 \<and> d = 30 * second \<and> (\<exists>err. bidiAccept e = Inl err))"
proof (intro conjI)
  show "downloadTask (cfg\<lparr>downloadUni := b\<rparr>) e = downloadTask cfg e"
    by (rule downloadTask_toggle)
  show t: "downloadTasks (cfg\<lparr>downloadUni := b\<rparr>) env = downloadTasks cfg env"
    by (simp add: downloadTasks_def downloadTask_toggle)
  show "run sched (start (downloadTasks (cfg\<lparr>downloadUni := b\<rparr>) env)) =
     run sched (start (downloadTasks cfg env))"
    by (simp only: t)
  show "downloadReport sz (cfg\<lparr>downloadUni := b\<rparr>) env sched = downloadReport sz cfg env sched"
    by (simp only: downloadReport_def t)
  show "hd (downloadTask cfg e) = Ev (AcceptStream (30 * second))"
    by (simp add: downloadTask_def)
  show "\<forall>i d. i < length (downloadTask cfg e) \<and> downloadTask cfg e ! i = Ev (AcceptUniStream d) \<longrightarrow>
      i = 1 \<and> d = 30 * second \<and> (\<exists>err. bidiAccept e = Inl err)"
  proof (intro allI impI)
    fix i d
    assume a: "i < length (downloadTask cfg e) \<and> downloadTask cfg e ! i = Ev (AcceptUniStream d)"
    have k1: "Ev (AcceptUniStream d) \<notin> set (appendTimes (elapsed e) @ [WgDone])"
      and k2: "Ev (AcceptUniStream d) \<notin> set (appendTimes (elapsed e) @ [Ev Close, WgDone])"
      by (simp_all add: appendTimes_def)
    show "i = 1 \<and> d = 30 * second \<and> (\<exists>err. bidiAccept e = Inl err)"
    proof (cases "bidiAccept e")
      case (Inr s)
      then have "downloadTask cfg e = Ev (AcceptStream (30 * second)) #
          readLoopUni True (readTO cfg) s (appendTimes (elapsed e) @ [Ev Close, WgDone])"
        by (simp add: downloadTask_def readLoopBidi_Uni)
      with a no_accept_uni_in_loop [OF k2, of True "readTO cfg" s] show ?thesis
        by (cases i) (auto simp: in_set_conv_nth)
    next
      case (Inl err)
      then obtain rest where p: "downloadTask cfg e =
          Ev (AcceptStream (30 * second)) # Ev (AcceptUniStream (30 * second)) # rest"
        and r: "Ev (AcceptUniStream d) \<notin> set rest"
        using no_accept_uni_in_loop [OF k1]
        by (cases "uniAccept e") (auto simp: downloadTask_def)
      from a p r have "i = 1 \<and> d = 30 * second"
        by (cases i; cases "i - 1") (auto simp: in_set_conv_nth)
      with Inl show ?thesis by simp
    qed
  qed
qed

theorem downloadUni_not_consulted_witness:
  "downloadReport Int64 (example_cfg\<lparr>downloadUni := True\<rparr>) example_env example_sched =
     downloadReport Int64 example_cfg example_env example_sched \<and>
   downloadUni (example_cfg\<lparr>downloadUni := True\<rparr>) \<noteq> downloadUni example_cfg \<and>
   (1::nat) < length (downloadTask example_cfg (example_env 1)) \<and>
   downloadTask example_cfg (example_env 1) ! 1 = Ev (AcceptUniStream (30 * second)) \<and>
   hd (downloadTask example_cfg (example_env 1)) = Ev (AcceptStream (30 * second)) \<and>
   (\<exists>err. bidiAccept (example_env 1) = Inl err)"
proof -
  note w = downloadUni_not_consulted [where cfg = example_cfg and b = True and e = "example_env 1"
      and env = example_env and sched = example_sched and sz = Int64]
  have t: "downloadTask example_cfg (example_env 1) =
     [Ev (AcceptStream 30000000000), Ev (AcceptUniStream 30000000000),
      Ev (SetReadDeadline 30000000000), Ev (Read 65536 4 (Some EOF)), Lock,
      LoadTotal, StoreTotal 4, Unlock, Lock, LoadTimes, StoreTimes 4000000000,
      Unlock, WgDone]"
    by (simp add: example_cfg_def example_env_def downloadTask_def
        second_def addTotal_def appendTimes_def)
  then have l: "(1::nat) < length (downloadTask example_cfg (example_env 1))"
    and a: "downloadTask example_cfg (example_env 1) ! 1 = Ev (AcceptUniStream (30 * second))"
    by (simp_all add: second_def)
  from w l a have "\<exists>err. bidiAccept (example_env 1) = Inl err" by blast
  moreover have "downloadUni (example_cfg\<lparr>downloadUni := True\<rparr>) \<noteq> downloadUni example_cfg"
    by (simp add: example_cfg_def)
  ultimately show ?thesis using w l a by blast
qed

text \<open>
  Claim C8. The chunks of a payload are its consecutive pieces of \<open>min 65536 remaining\<close>
  bytes, none empty, and together they are the payload. An upload task whose every write
  is accepted whole arms the 30-second write deadline, then writes each chunk in order,
  re-arming the deadline after each, and finally closes its stream and signals the wait
  group. When a write fails, the task prints the error, writes nothing more (no retry),
  closes its stream and ends. A step of one upload task changes no other task.
\<close>

theorem upload_chunked_writes:
  "concat (chunks msg) = msg \<and>
   (\<forall>i < length (chunks msg).
      chunks msg ! i = take 65536 (drop (i * 65536) msg) \<and>
      length (chunks msg ! i) = min 65536 (length msg - i * 65536) \<and>
      chunks msg ! i \<noteq> []) \<and>
   uploadTask msg (map accepted_whole (chunks msg) @ extra) =
     Ev (SetWriteDeadline (30 * second)) # concat (map write_step (chunks msg)) @
     [Ev Close, WgDone] \<and>
   (j < length (chunks msg) \<longrightarrow>
      uploadTask msg (map accepted_whole (take j (chunks msg)) @ (n, Some e) # extra) =
        Ev (SetWriteDeadline (30 * second)) # concat (map write_step (take j (chunks msg))) @
        [Ev (Write (chunks msg ! j)), Ev (PrintStreamWriteError e), Ev Close, WgDone]) \<and>
   (uploadTasks cfg opens = Inr ps \<and> run sched (start ps) = Some s \<and> step i s = Some s' \<longrightarrow>
      (\<forall>k. k \<noteq> i \<longrightarrow> tasks s' ! k = tasks s ! k))"
proof (intro conjI allI impI)
  show "concat (chunks msg) = msg" by (rule concat_chunks)
  show "uploadTask msg (map accepted_whole (chunks msg) @ extra) =
     Ev (SetWriteDeadline (30 * second)) # concat (map write_step (chunks msg)) @
     [Ev Close, WgDone]"
    by (rule uploadTask_success)
next
  fix i assume i: "i < length (chunks msg)"
  then show "chunks msg ! i = take 65536 (drop (i * 65536) msg)" by (rule chunks_nth)
  from i show "length (chunks msg ! i) = min 65536 (length msg - i * 65536)"
    by (rule chunk_length(1))
  from i show "chunks msg ! i \<noteq> []" by (rule chunk_length(2))
next
  assume "j < length (chunks msg)"
  then show "uploadTask msg (map accepted_whole (take j (chunks msg)) @ (n, Some e) # extra) =
        Ev (SetWriteDeadline (30 * second)) # concat (map write_step (take j (chunks msg))) @
        [Ev (Write (chunks msg ! j)), Ev (PrintStreamWriteError e), Ev Close, WgDone]"
    by (rule uploadTask_error)
next
  fix k
  assume "uploadTasks cfg opens = Inr ps \<and> run sched (start ps) = Some s \<and> step i s = Some s'"
    and "k \<noteq> i"
  then show "tasks s' ! k = tasks s ! k"
    using step_frame(1) [of i s s'] by simp
qed

theorem upload_chunked_writes_witness:
  "concat (chunks (replicate 65537 (0::byte))) = replicate 65537 0 \<and>
   chunks (replicate 65537 (0::byte)) = [replicate 65536 0, [0]] \<and>
   length (chunks (replicate 65537 (0::byte)) ! 0) = 65536 \<and>
   length (chunks (replicate 65537 (0::byte)) ! 1) = 1 \<and>
   uploadTask (replicate 65537 0) [(65536, None), (1, None)] =
     [Ev (SetWriteDeadline 30000000000), Ev (Write (replicate 65536 0)),
      Ev (SetWriteDeadline 30000000000), Ev (Write [0]), Ev (SetWriteDeadline 30000000000),
      Ev Close, WgDone] \<and>
   uploadTask (replicate 65537 0) [(65536, None), (0, Some (Error ''deadline exceeded'' (Some True)))] =
     [Ev (SetWriteDeadline 30000000000), Ev (Write (replicate 65536 0)),
      Ev (SetWriteDeadline 30000000000), Ev (Write [0]),
      Ev (PrintStreamWriteError (Error ''deadline exceeded'' (Some True))), Ev Close, WgDone] \<and>
   (\<exists>ps s s'.
      uploadTasks (example_cfg\<lparr>dataSize := 2\<rparr>)
        (\<lambda>i. if i = 0 then Inr [(2, None)]
             else Inr [(0, Some (Error ''deadline exceeded'' (Some True)))]) = Inr ps \<and>
      run [0, 1, 1] (start ps) = Some s \<and> step 1 s = Some s' \<and>
      tasks s' ! 0 = tasks s ! 0 \<and> pc (tasks s ! 0) = tl (ps ! 0))"
proof -
  let ?msg = "replicate 65537 (0::byte)"
  let ?opens = "\<lambda>i::nat. if i = 0 then Inr [(2::int, None :: error option)]
          else Inr [(0, Some (Error ''deadline exceeded'' (Some True)))] :: error + writeResult list"
  let ?ps = "[[Ev (SetWriteDeadline 30000000000), Ev (Write [143, 226]),
         Ev (SetWriteDeadline 30000000000), Ev Close, WgDone],
        [Ev (SetWriteDeadline 30000000000), Ev (Write [143, 226]),
         Ev (PrintStreamWriteError (Error ''deadline exceeded'' (Some True))), Ev Close, WgDone]]"
  have l: "(1::nat) < length (chunks ?msg)" by (simp add: chunks_example)
  have "\<exists>s. run [0, 1, 1] (start ?ps) = Some s \<and> pc (tasks s ! 0) = tl (?ps ! 0) \<and>
          (\<exists>s'. step 1 s = Some s')"
    by (simp add: start_def spawn_def step_def exec_def)
  then obtain s s' where r: "run [0, 1, 1] (start ?ps) = Some s" "pc (tasks s ! 0) = tl (?ps ! 0)"
    "step 1 s = Some s'"
    by blast
  note w = upload_chunked_writes [where msg = ?msg and extra = "[]" and j = 1 and n = 0
      and e = "Error ''deadline exceeded'' (Some True)" and cfg = "example_cfg\<lparr>dataSize := 2\<rparr>"
      and opens = ?opens and ps = ?ps and sched = "[0, 1, 1]" and s = s and i = 1 and s' = s']
  from w have a: "concat (chunks ?msg) = ?msg" by blast
  from w l have b: "length (chunks ?msg ! 1) = min 65536 (length ?msg - 1 * 65536)"
    by blast
  from w have c: "uploadTask ?msg (map accepted_whole (chunks ?msg) @ []) =
     Ev (SetWriteDeadline (30 * second)) # concat (map write_step (chunks ?msg)) @ [Ev Close, WgDone]"
    by blast
  from w l have d: "uploadTask ?msg (map accepted_whole (take 1 (chunks ?msg)) @
        (0, Some (Error ''deadline exceeded'' (Some True))) # []) =
        Ev (SetWriteDeadline (30 * second)) # concat (map write_step (take 1 (chunks ?msg))) @
        [Ev (Write (chunks ?msg ! 1)), Ev (PrintStreamWriteError (Error ''deadline exceeded'' (Some True))),
         Ev Close, WgDone]"
    by blast
  from w upload_example_tasks r have f: "tasks s' ! 0 = tasks s ! 0"
    by simp
  have "\<exists>ps s s'.
      uploadTasks (example_cfg\<lparr>dataSize := 2\<rparr>) ?opens = Inr ps \<and>
      run [0, 1, 1] (start ps) = Some s \<and> step 1 s = Some s' \<and>
      tasks s' ! 0 = tasks s ! 0 \<and> pc (tasks s ! 0) = tl (ps ! 0)"
    using upload_example_tasks r f by blast
  then show ?thesis
    using a b c d
    by (simp add: chunks_example accepted_whole_def write_step_def second_def)
qed

text \<open>
  Claim C9. In every state that an interleaving of the download tasks can reach, the
  shared total equals the sum of the increments the tasks have performed so far. The
  reason is the mutex: a task that is about to write the total holds the mutex, is the
  only task that holds it, and has read the current value of the total. Once every task
  has called \<^verbatim>\<open>w.Done()\<close>, the total is the sum of all increments of all tasks; and \<open>N\<close>
  tasks that each add a fixed amount under the mutex leave a total of exactly \<open>N\<close>
  times the amount, whatever the interleaving.
\<close>

theorem no_lost_updates:
  "(run sched (start (downloadTasks cfg env)) = Some s \<longrightarrow>
      total_sh s = (\<Sum>t \<leftarrow> tasks s. incs (hist t)) \<and>
      (\<forall>j < length (tasks s). holds_lock (tasks s ! j) \<longrightarrow>
          mu_sh s \<and> (\<forall>k < length (tasks s). holds_lock (tasks s ! k) \<longrightarrow> k = j)) \<and>
      (\<forall>j < length (tasks s). \<forall>n r. pc (tasks s ! j) = StoreTotal n # r \<longrightarrow>
          holds_lock (tasks s ! j) \<and> reg_total (tasks s ! j) = total_sh s) \<and>
      (w_sh s = 0 \<longrightarrow>
          total_sh s = (\<Sum>ix \<leftarrow> [0..<nat (numberStream cfg)]. incs (downloadTask cfg (env ix))))) \<and>
   (run sched' (start (replicate N (addTotal amount @ [WgDone]))) = Some s' \<and> w_sh s' = 0 \<longrightarrow>
      total_sh s' = int N * amount)"
proof (intro conjI impI)
  assume r: "run sched (start (downloadTasks cfg env)) = Some s"
  then have v: "inv_all s" by (rule download_inv)
  then show "total_sh s = (\<Sum>t \<leftarrow> tasks s. incs (hist t))"
    by (simp add: inv_all_def inv_sums_def)
  show "\<forall>j < length (tasks s). holds_lock (tasks s ! j) \<longrightarrow>
          mu_sh s \<and> (\<forall>k < length (tasks s). holds_lock (tasks s ! k) \<longrightarrow> k = j)"
    using mutex_holder [OF v] by blast
  show "\<forall>j < length (tasks s). \<forall>n r. pc (tasks s ! j) = StoreTotal n # r \<longrightarrow>
          holds_lock (tasks s ! j) \<and> reg_total (tasks s ! j) = total_sh s"
    using v by (auto simp: inv_all_def inv_regs_def holds_lock_def)
  assume z: "w_sh s = 0"
  have c: "code_of s = downloadTasks cfg env"
    using run_code_of [OF r] by (simp add: start_code_of)
  have "total_sh s = (\<Sum>t \<leftarrow> tasks s. incs (hist t))"
    using v by (simp add: inv_all_def inv_sums_def)
  also have "\<dots> = (\<Sum>p \<leftarrow> code_of s. incs p)"
    by (rule sum_hist_code) (rule barrier_hist [OF v z])
  finally show "total_sh s = (\<Sum>ix \<leftarrow> [0..<nat (numberStream cfg)]. incs (downloadTask cfg (env ix)))"
    by (simp add: c downloadTasks_def comp_def)
next
  assume a: "run sched' (start (replicate N (addTotal amount @ [WgDone]))) = Some s' \<and> w_sh s' = 0"
  let ?ps = "replicate N (addTotal amount @ [WgDone])"
  have "inv_all (start ?ps)" by (rule start_inv) (rule replicate_addTotal_disciplined)
  with a have v: "inv_all s'" by (auto intro: run_inv)
  have c: "code_of s' = ?ps"
    using a run_code_of [of sched' "start ?ps" s'] by (simp add: start_code_of)
  have "total_sh s' = (\<Sum>t \<leftarrow> tasks s'. incs (hist t))"
    using v by (simp add: inv_all_def inv_sums_def)
  also have "\<dots> = (\<Sum>p \<leftarrow> code_of s'. incs p)"
    using a by (intro sum_hist_code barrier_hist [OF v]) simp
  also have "\<dots> = int N * incs (addTotal amount @ [WgDone])"
    unfolding c by (rule sum_list_replicate_const)
  finally show "total_sh s' = int N * amount"
    by (simp add: addTotal_def)
qed

theorem no_lost_updates_witness:
  "(\<exists>s. run example_sched (start (downloadTasks example_cfg example_env)) = Some s \<and>
        w_sh s = 0 \<and> total_sh s = 7 \<and>
        total_sh s = (\<Sum>t \<leftarrow> tasks s. incs (hist t)) \<and>
        total_sh s = (\<Sum>ix \<leftarrow> [0..<nat (numberStream example_cfg)].
                        incs (downloadTask example_cfg (example_env ix)))) \<and>
   (\<exists>s. run [0, 1, 0, 0, 0, 0] (start (downloadTasks example_cfg example_env)) = Some s \<and>
        (0::nat) < length (tasks s) \<and> (\<exists>r. pc (tasks s ! 0) = StoreTotal 3 # r) \<and>
        holds_lock (tasks s ! 0) \<and> mu_sh s \<and> reg_total (tasks s ! 0) = total_sh s \<and>
        \<not> holds_lock (tasks s ! 1)) \<and>
   (\<exists>s. run [0, 0, 0, 0, 1, 1, 1, 0, 1, 1] (start (replicate 2 (addTotal 5 @ [WgDone]))) = Some s \<and>
        w_sh s = 0 \<and> total_sh s = int 2 * 5)"
proof -
  from example_run obtain s1 where s1:
    "run example_sched (start (downloadTasks example_cfg example_env)) = Some s1"
    "total_sh s1 = 7" "w_sh s1 = 0"
    by blast
  from example_midrun obtain s2 r where s2:
    "run [0, 1, 0, 0, 0, 0] (start (downloadTasks example_cfg example_env)) = Some s2"
    "pc (tasks s2 ! 0) = StoreTotal 3 # r" "length (tasks s2) = 2"
    by blast
  from counters_run obtain s3 where s3:
    "run [0, 0, 0, 0, 1, 1, 1, 0, 1, 1] (start (replicate 2 (addTotal 5 @ [WgDone]))) = Some s3"
    "w_sh s3 = 0"
    by blast
  note w1 = no_lost_updates [where sched = example_sched and cfg = example_cfg and env = example_env
      and s = s1 and sched' = "[0, 0, 0, 0, 1, 1, 1, 0, 1, 1]" and N = 2 and amount = 5 and s' = s3]
  note w2 = no_lost_updates [where sched = "[0, 1, 0, 0, 0, 0]" and cfg = example_cfg
      and env = example_env and s = s2 and sched' = "[0, 0, 0, 0, 1, 1, 1, 0, 1, 1]" and N = 2
      and amount = 5 and s' = s3]
  from w1 s1 have a: "total_sh s1 = (\<Sum>t \<leftarrow> tasks s1. incs (hist t))"
    and b: "total_sh s1 = (\<Sum>ix \<leftarrow> [0..<nat (numberStream example_cfg)].
                        incs (downloadTask example_cfg (example_env ix)))"
    by blast+
  from w1 s3 have c: "total_sh s3 = int 2 * 5" by blast
  have l0: "0 < length (tasks s2)" and l1: "1 < length (tasks s2)" using s2(3) by simp_all
  from w2 s2(1) have A: "\<forall>j < length (tasks s2). \<forall>n r. pc (tasks s2 ! j) = StoreTotal n # r \<longrightarrow>
          holds_lock (tasks s2 ! j) \<and> reg_total (tasks s2 ! j) = total_sh s2"
    and B: "\<forall>j < length (tasks s2). holds_lock (tasks s2 ! j) \<longrightarrow>
          mu_sh s2 \<and> (\<forall>k < length (tasks s2). holds_lock (tasks s2 ! k) \<longrightarrow> k = j)"
    by blast+
  from A l0 s2(2) have h: "holds_lock (tasks s2 ! 0) \<and> reg_total (tasks s2 ! 0) = total_sh s2"
    by blast
  with B l0 have m: "mu_sh s2 \<and> (\<forall>k < length (tasks s2). holds_lock (tasks s2 ! k) \<longrightarrow> k = 0)"
    by blast
  with l1 have n: "\<not> holds_lock (tasks s2 ! 1)" by auto
  from s1 a b have 1: "\<exists>s. run example_sched (start (downloadTasks example_cfg example_env)) = Some s \<and>
        w_sh s = 0 \<and> total_sh s = 7 \<and>
        total_sh s = (\<Sum>t \<leftarrow> tasks s. incs (hist t)) \<and>
        total_sh s = (\<Sum>ix \<leftarrow> [0..<nat (numberStream example_cfg)].
                        incs (downloadTask example_cfg (example_env ix)))"
    by blast
  from s2(1,2) l0 h m n have 2: "\<exists>s. run [0, 1, 0, 0, 0, 0] (start (downloadTasks example_cfg example_env)) = Some s \<and>
        (0::nat) < length (tasks s) \<and> (\<exists>r. pc (tasks s ! 0) = StoreTotal 3 # r) \<and>
        holds_lock (tasks s ! 0) \<and> mu_sh s \<and> reg_total (tasks s ! 0) = total_sh s \<and>
        \<not> holds_lock (tasks s ! 1)"
    by auto
  from s3 c have 3: "\<exists>s. run [0, 0, 0, 0, 1, 1, 1, 0, 1, 1] (start (replicate 2 (addTotal 5 @ [WgDone]))) = Some s \<and>
        w_sh s = 0 \<and> total_sh s = int 2 * 5"
    by blast
  from 1 2 3 show ?thesis by blast
qed

text \<open>
  Claim C10. A download task that has run to completion and added bytes to the shared
  total has also appended exactly one duration entry, its elapsed time. Hence, once the
  barrier is passed, a nonzero total implies a non-empty duration collection, and the
  no-data guard ``no durations or zero total'' holds exactly when the total is zero.
\<close>

theorem nonzero_total_has_duration:
  "(incs (downloadTask cfg e) \<noteq> 0 \<and> dones (downloadTask cfg e) = 1 \<longrightarrow>
      durs (downloadTask cfg e) = [elapsed e]) \<and>
   (run sched (start (downloadTasks cfg env)) = Some s \<and> w_sh s = 0 \<and> total_sh s \<noteq> 0 \<longrightarrow>
      times_sh s \<noteq> []) \<and>
   (run sched (start (downloadTasks cfg env)) = Some s \<and> w_sh s = 0 \<longrightarrow>
      ((length (times_sh s) = 0 \<or> total_sh s = 0) \<longleftrightarrow> total_sh s = 0))"
proof (intro conjI impI)
  assume "incs (downloadTask cfg e) \<noteq> 0 \<and> dones (downloadTask cfg e) = 1"
  then show "durs (downloadTask cfg e) = [elapsed e]"
    by (simp add: downloadTask_contributes)
next
  assume "run sched (start (downloadTasks cfg env)) = Some s \<and> w_sh s = 0 \<and> total_sh s \<noteq> 0"
  then show "times_sh s \<noteq> []"
    using barrier_times_nonempty [of sched cfg env s] by simp
next
  assume "run sched (start (downloadTasks cfg env)) = Some s \<and> w_sh s = 0"
  then show "(length (times_sh s) = 0 \<or> total_sh s = 0) \<longleftrightarrow> total_sh s = 0"
    using barrier_times_nonempty [of sched cfg env s] by auto
qed

theorem nonzero_total_has_duration_witness:
  "incs (downloadTask example_cfg (example_env 0)) = 3 \<and>
   dones (downloadTask example_cfg (example_env 0)) = 1 \<and>
   durs (downloadTask example_cfg (example_env 0)) = [2 * second] \<and>
   (\<exists>s. run example_sched (start (downloadTasks example_cfg example_env)) = Some s \<and>
        w_sh s = 0 \<and> total_sh s = 7 \<and> times_sh s \<noteq> [])"
proof -
  have i: "incs (downloadTask example_cfg (example_env 0)) = 3"
    and d: "dones (downloadTask example_cfg (example_env 0)) = 1"
    by (simp_all add: downloadTask_incs downloadTask_dones accepted_def example_env_def exits_def)
  from example_run obtain s where s: "run example_sched (start (downloadTasks example_cfg example_env)) = Some s"
    "total_sh s = 7" "w_sh s = 0"
    by blast
  note w = nonzero_total_has_duration [of example_cfg "example_env 0" example_sched example_env s]
  from w i d have "durs (downloadTask example_cfg (example_env 0)) = [elapsed (example_env 0)]"
    by simp
  then have e: "durs (downloadTask example_cfg (example_env 0)) = [2 * second]"
    by (simp add: example_env_def)
  from w s have "times_sh s \<noteq> []" by simp
  with i d e s show ?thesis by blast
qed

end
